theory Spec2Isabelle
  imports Main "HOL-Library.AList"
begin

section \<open>Data model (src/src/App.tsx, interface Database and SubmissionWithDetails)\<close>

text \<open>
  The rows the decision engine reads. \<open>submission\<close> is \<open>SubmissionWithDetails\<close>: a row of
  the \<open>submissions\<close> table with its user and its votes joined in. JavaScript numbers
  that hold database keys, ranks and counts are integers here. Field names are those of
  the source; a name that two row types share is prefixed with the table in all but
  one of them, since record fields are global constants.
\<close>

record users_row =
  users_user_id :: int
  name :: string
  email :: "string option"
  users_created_at :: string

record vote =
  vote_id :: int
  vote_submission_id :: int
  vote_user_id :: int
  rank :: int
  vote_created_at :: string

record submission =
  submission_id :: int
  night_id :: int
  user_id :: int
  movie_id :: int
  created_at :: string
  users :: "users_row option"
  votes :: "vote list"
  voteCount :: nat

datatype Phase = submission_phase | voting | winner_phase

text \<open>The only exception the tally can raise: a method call on \<open>undefined\<close>.\<close>

datatype js_error = TypeError


section \<open>The instant-runoff tally (calculateInstantRunoffWinner)\<close>

text \<open>
  \<open>votesBySubmission\<close> is a JavaScript object keyed by submission id whose values are the
  very arrays \<open>submission.votes\<close> of the caller (no copy is made). It is modelled as a map
  from ids to the current contents of those arrays; the tally threads it as state and
  hands back its final contents, which is what the caller's ballots look like after the
  call. Different submissions hold different arrays of different vote objects, as rows
  parsed from the store's response do, so a write to one ballot changes no other.
\<close>

type_synonym votes_store = "int \<rightharpoonup> vote list"

text \<open>\<open>submissions.reduce((acc, submission) => { acc[id] = submission.votes || []; ... }, {})\<close>:
  a later submission with the same id overwrites the earlier entry. \<open>votes\<close> is an array,
  which is truthy, so \<open>|| []\<close> never applies.\<close>

definition votesBySubmission_reduce :: "submission list \<Rightarrow> votes_store" where
  "votesBySubmission_reduce submissions =
     foldl (\<lambda>acc s. acc(submission_id s \<mapsto> votes s)) Map.empty submissions"

text \<open>\<open>.filter(vote => vote.rank === 1).length\<close>\<close>

definition firstChoiceVotes :: "vote list \<Rightarrow> nat" where
  "firstChoiceVotes vs = length (filter (\<lambda>v. rank v = 1) vs)"

text \<open>
  \<open>voteCounts\<close> is a JavaScript \<open>Map\<close>: iteration follows insertion order and \<open>set\<close> on a
  key already present replaces the value in place. That is \<open>AList.update\<close> on an association
  list. \<open>countVotes\<close> is the \<open>forEach\<close> that fills it; \<open>votesBySubmission[id].filter\<close> raises
  a TypeError when the id has no entry.
\<close>

fun countVotes ::
  "votes_store \<Rightarrow> submission list \<Rightarrow> (int \<times> nat) list \<Rightarrow> js_error + (int \<times> nat) list"
where
  "countVotes vbs [] voteCounts = Inr voteCounts"
| "countVotes vbs (s # ss) voteCounts =
     (case vbs (submission_id s) of
        None \<Rightarrow> Inl TypeError
      | Some vs \<Rightarrow>
          countVotes vbs ss (AList.update (submission_id s) (firstChoiceVotes vs) voteCounts))"

text \<open>\<open>voteCounts.get(id) || 0\<close>\<close>

definition voteCount_get :: "(int \<times> nat) list \<Rightarrow> int \<Rightarrow> nat" where
  "voteCount_get voteCounts k = (case map_of voteCounts k of Some c \<Rightarrow> c | None \<Rightarrow> 0)"

text \<open>\<open>Array.from(voteCounts.values()).reduce((sum, count) => sum + count, 0)\<close>\<close>

definition totalVotes :: "(int \<times> nat) list \<Rightarrow> nat" where
  "totalVotes voteCounts = sum_list (map snd voteCounts)"

text \<open>
  The majority scan: the first remaining submission with \<open>voteCount > totalVotes / 2\<close>.
  The division is exact in JavaScript (no rounding), so the test on integers is
  \<open>totalVotes < 2 * voteCount\<close>.
\<close>

definition findMajority :: "(int \<times> nat) list \<Rightarrow> submission list \<Rightarrow> submission option" where
  "findMajority voteCounts remaining =
     find (\<lambda>s. totalVotes voteCounts < 2 * voteCount_get voteCounts (submission_id s)) remaining"

text \<open>\<open>Math.min(...xs)\<close>; of no arguments it is \<open>Infinity\<close>, which is \<open>None\<close> here and equals
  no count.\<close>

fun math_min :: "nat list \<Rightarrow> nat option" where
  "math_min [] = None"
| "math_min (x # xs) = (case math_min xs of None \<Rightarrow> Some x | Some m \<Rightarrow> Some (min x m))"

text \<open>\<open>Array.from(voteCounts.entries()).find(([_, count]) => count === minVotes)?.[0]\<close>;
  \<open>None\<close> is \<open>undefined\<close>.\<close>

definition losingSubmissionId :: "(int \<times> nat) list \<Rightarrow> int option" where
  "losingSubmissionId voteCounts =
     (let minVotes = math_min (map snd voteCounts)
      in map_option fst (find (\<lambda>(_, count). Some count = minVotes) voteCounts))"

text \<open>
  The body of the innermost \<open>forEach\<close>: \<open>if (vote.rank > threshold) vote.rank -= 1\<close>, where
  the threshold is \<open>voteCounts.get(losingSubmissionId)\<close>; a comparison with \<open>undefined\<close> is
  false.
\<close>

definition rerank :: "nat option \<Rightarrow> vote \<Rightarrow> vote" where
  "rerank threshold v =
     (case threshold of
        None \<Rightarrow> v
      | Some c \<Rightarrow> if int c < rank v then v\<lparr>rank := rank v - 1\<rparr> else v)"

text \<open>\<open>Object.values(votesBySubmission).forEach(votes => votes.forEach(...))\<close>: every array
  of the object, whether or not its submission is still in the running.\<close>

definition rerankAll :: "nat option \<Rightarrow> votes_store \<Rightarrow> votes_store" where
  "rerankAll threshold vbs = (\<lambda>k. map_option (map (rerank threshold)) (vbs k))"

text \<open>The variables the \<open>while\<close> loop reads and writes.\<close>

record tally_state =
  remainingSubmissions :: "submission list"
  winner :: "submission option"
  votesBySubmission :: votes_store

text \<open>
  One pass through the loop body. \<open>if (losingSubmissionId)\<close> is a truthiness test: it
  fails for \<open>undefined\<close> and for the number 0.
\<close>

definition runoff_round :: "tally_state \<Rightarrow> js_error + tally_state" where
  "runoff_round st =
     (case countVotes (votesBySubmission st) (remainingSubmissions st) [] of
        Inl e \<Rightarrow> Inl e
      | Inr voteCounts \<Rightarrow>
          (case findMajority voteCounts (remainingSubmissions st) of
             Some w \<Rightarrow> Inr (st\<lparr>winner := Some w\<rparr>)
           | None \<Rightarrow>
               (let losing = losingSubmissionId voteCounts;
                    remaining' =
                      filter (\<lambda>s. Some (submission_id s) \<noteq> losing) (remainingSubmissions st)
                in case losing of
                     None \<Rightarrow> Inr (st\<lparr>remainingSubmissions := remaining'\<rparr>)
                   | Some l \<Rightarrow>
                       if l \<noteq> 0
                       then Inr (st\<lparr>remainingSubmissions := remaining',
                                    votesBySubmission :=
                                      rerankAll (map_of voteCounts l) (votesBySubmission st)\<rparr>)
                       else Inr (st\<lparr>remainingSubmissions := remaining'\<rparr>))))"

text \<open>The loop condition \<open>!winner && remainingSubmissions.length > 0\<close>.\<close>

definition loop_cond :: "tally_state \<Rightarrow> bool" where
  "loop_cond st \<longleftrightarrow> winner st = None \<and> remainingSubmissions st \<noteq> []"

subsection \<open>Every round makes progress\<close>

text \<open>
  The loop has no counter: it stops because a round that finds no winner takes a
  submission out of \<open>remainingSubmissions\<close>. These facts are needed to define the loop
  as a total function.
\<close>

lemma countVotes_keys:
  "countVotes vbs ss acc = Inr vc \<Longrightarrow> fst ` set vc = fst ` set acc \<union> submission_id ` set ss"
proof (induction ss arbitrary: acc)
  case Nil
  then show ?case by simp
next
  case (Cons s ss)
  then obtain vs where vs: "vbs (submission_id s) = Some vs"
    by (cases "vbs (submission_id s)") auto
  with Cons.prems
  have "countVotes vbs ss (AList.update (submission_id s) (firstChoiceVotes vs) acc) = Inr vc"
    by simp
  from Cons.IH [OF this] show ?case
    by (auto simp: AList.dom_update)
qed

lemma math_min_Some: "xs \<noteq> [] \<Longrightarrow> math_min xs = Some (Min (set xs))"
proof (induction xs)
  case Nil
  then show ?case by simp
next
  case (Cons x xs)
  show ?case
  proof (cases "xs = []")
    case True
    then show ?thesis by simp
  next
    case False
    with Cons.IH have "math_min xs = Some (Min (set xs))" by simp
    with False show ?thesis by (simp add: min_def Min_insert2 not_le less_imp_le split: if_splits)
  qed
qed

lemma losingSubmissionId_in:
  assumes "vc \<noteq> []"
  shows "\<exists>l c. losingSubmissionId vc = Some l \<and> (l, c) \<in> set vc"
proof -
  let ?m = "Min (set (map snd vc))"
  have mm: "math_min (map snd vc) = Some ?m"
    using assms by (simp add: math_min_Some)
  have "?m \<in> set (map snd vc)"
    using assms by (intro Min_in) auto
  then obtain k where "(k, ?m) \<in> set vc" by auto
  then have "find (\<lambda>(_, count). Some count = Some ?m) vc \<noteq> None"
    by (auto simp: find_None_iff)
  then obtain l c where f: "find (\<lambda>(_, count). Some count = Some ?m) vc = Some (l, c)"
    by (cases "find (\<lambda>(_, count). Some count = Some ?m) vc") auto
  then have "(l, c) \<in> set vc"
    by (auto simp: find_Some_iff in_set_conv_nth)
  with f mm show ?thesis
    by (auto simp: losingSubmissionId_def)
qed

lemma runoff_round_progress:
  assumes "loop_cond st" and "runoff_round st = Inr st'"
  shows "winner st' \<noteq> None \<or>
         length (remainingSubmissions st') < length (remainingSubmissions st)"
proof -
  from assms(2) obtain vc where
    vc: "countVotes (votesBySubmission st) (remainingSubmissions st) [] = Inr vc"
    by (auto simp: runoff_round_def split: sum.splits)
  show ?thesis
  proof (cases "findMajority vc (remainingSubmissions st)")
    case (Some w)
    with vc assms(2) show ?thesis by (auto simp: runoff_round_def)
  next
    case None
    from countVotes_keys [OF vc]
    have keys: "fst ` set vc = submission_id ` set (remainingSubmissions st)" by simp
    with assms(1) have "vc \<noteq> []" by (auto simp: loop_cond_def)
    from losingSubmissionId_in [OF this] obtain l c where
      l: "losingSubmissionId vc = Some l" and "(l, c) \<in> set vc" by blast
    then have "l \<in> submission_id ` set (remainingSubmissions st)"
      using keys by force
    then obtain s where s: "s \<in> set (remainingSubmissions st)" "submission_id s = l" by auto
    have rem: "remainingSubmissions st' =
        filter (\<lambda>s. submission_id s \<noteq> l) (remainingSubmissions st)"
      using assms(2) vc None l by (auto simp: runoff_round_def Let_def split: if_splits)
    have "length (filter (\<lambda>s. submission_id s \<noteq> l) (remainingSubmissions st))
        < length (remainingSubmissions st)"
      using s by (intro length_filter_less) auto
    with rem show ?thesis by simp
  qed
qed

subsection \<open>The loop and the function\<close>

text \<open>\<open>while (!winner && remainingSubmissions.length > 0) { ... }\<close>; an exception leaves
  the loop.\<close>

function irv_loop :: "tally_state \<Rightarrow> js_error + tally_state" where
  "irv_loop st =
     (if loop_cond st
      then (case runoff_round st of Inl e \<Rightarrow> Inl e | Inr st' \<Rightarrow> irv_loop st')
      else Inr st)"
  by pat_completeness auto
termination
proof (relation "measure (\<lambda>st. if winner st = None then Suc (length (remainingSubmissions st)) else 0)")
  show "wf (measure (\<lambda>st.
      if winner st = None then Suc (length (remainingSubmissions st)) else 0))"
    by simp
next
  fix st st'
  assume "loop_cond st" and "runoff_round st = Inr st'"
  from runoff_round_progress [OF this] \<open>loop_cond st\<close>
  show "(st', st) \<in> measure (\<lambda>st.
      if winner st = None then Suc (length (remainingSubmissions st)) else 0)"
    by (auto simp: loop_cond_def)
qed

declare irv_loop.simps [simp del]

text \<open>The state the loop starts in: \<open>remainingSubmissions = [...submissions]\<close>,
  \<open>winner = null\<close>.\<close>

definition initial_state :: "submission list \<Rightarrow> tally_state" where
  "initial_state submissions =
     \<lparr>remainingSubmissions = submissions, winner = None,
      votesBySubmission = votesBySubmission_reduce submissions\<rparr>"

text \<open>\<open>return winner || remainingSubmissions[0] || null\<close>: an object is truthy, and index 0
  of an empty array is \<open>undefined\<close>.\<close>

definition final_result :: "tally_state \<Rightarrow> submission option" where
  "final_result st =
     (case winner st of
        Some w \<Rightarrow> Some w
      | None \<Rightarrow> (case remainingSubmissions st of r # _ \<Rightarrow> Some r | [] \<Rightarrow> None))"

text \<open>
  The function itself. It returns the submission it selects (\<open>None\<close> is \<open>null\<close>) together
  with the contents in which it leaves the vote arrays it was given; on the early
  return for an empty list nothing has been touched.
\<close>

definition calculateInstantRunoffWinner ::
  "submission list \<Rightarrow> js_error + (submission option \<times> votes_store)"
where
  "calculateInstantRunoffWinner submissions =
     (if length submissions = 0 then Inr (None, votesBySubmission_reduce submissions)
      else (case irv_loop (initial_state submissions) of
              Inl e \<Rightarrow> Inl e
            | Inr st \<Rightarrow> Inr (final_result st, votesBySubmission st)))"

text \<open>
  Two observers of a run, used to speak about its rounds: the state after at most \<open>n\<close>
  passes through the loop body, and the number of passes the loop makes.
\<close>

fun loop_state :: "nat \<Rightarrow> tally_state \<Rightarrow> js_error + tally_state" where
  "loop_state 0 st = Inr st"
| "loop_state (Suc n) st =
     (if loop_cond st
      then (case runoff_round st of Inl e \<Rightarrow> Inl e | Inr st' \<Rightarrow> loop_state n st')
      else Inr st)"

function loop_iterations :: "tally_state \<Rightarrow> nat" where
  "loop_iterations st =
     (if loop_cond st
      then (case runoff_round st of Inl e \<Rightarrow> 1 | Inr st' \<Rightarrow> Suc (loop_iterations st'))
      else 0)"
  by pat_completeness auto
termination
proof (relation "measure (\<lambda>st. if winner st = None then Suc (length (remainingSubmissions st)) else 0)")
  show "wf (measure (\<lambda>st.
      if winner st = None then Suc (length (remainingSubmissions st)) else 0))"
    by simp
next
  fix st st'
  assume "loop_cond st" and "runoff_round st = Inr st'"
  from runoff_round_progress [OF this] \<open>loop_cond st\<close>
  show "(st', st) \<in> measure (\<lambda>st.
      if winner st = None then Suc (length (remainingSubmissions st)) else 0)"
    by (auto simp: loop_cond_def)
qed

declare loop_iterations.simps [simp del]


section \<open>The handlers of the application (function App)\<close>

text \<open>
  The store (Supabase) is an external collaborator. It is modelled by the three tables
  the handlers write, as lists of rows. What the store and the clock decide on their own
  in one call of a handler is given to the handler as a \<open>backend\<close> value: the time, the
  error (if any) with which each request is answered, and the keys the store assigns to
  inserted rows.
\<close>

record movie_nights_row =
  mn_night_id :: int
  date :: string
  mn_movie_id :: "int option"

record submissions_row =
  row_submission_id :: int
  row_night_id :: int
  row_user_id :: int
  row_movie_id :: int
  row_created_at :: string

record MovieResult =
  movie_result_id :: int
  title :: string
  release_date :: string
  overview :: string
  poster_path :: "string option"
  runtime :: "int option"

record database =
  movie_nights :: "movie_nights_row list"
  submissions_table :: "submissions_row list"
  votes_table :: "vote list"

text \<open>
  A value caught by \<open>catch (err)\<close>. The handlers report
  \<open>err instanceof Error ? err.message : 'An error occurred'\<close>.
\<close>

datatype thrown = Error string | NotAnError

definition error_message :: "thrown \<Rightarrow> string" where
  "error_message err = (case err of Error m \<Rightarrow> m | NotAnError \<Rightarrow> ''An error occurred'')"

text \<open>
  \<open>now_ms\<close> and \<open>now_iso\<close> are the time as \<open>Date.getTime()\<close> and as the store's timestamp,
  \<open>day_of_week\<close> is \<open>Date.getDay()\<close>; an \<open>_error\<close> field is the \<open>error\<close> with which the store
  answers the request named (\<open>None\<close>: the request succeeds); \<open>next_submission_id\<close> and
  \<open>next_vote_id\<close> are the keys the store gives to the next rows inserted.
\<close>

record backend =
  now_ms :: int
  now_iso :: string
  day_of_week :: nat
  select_night_error :: "thrown option"
  insert_night_error :: "thrown option"
  insert_submission_error :: "thrown option"
  delete_votes_error :: "thrown option"
  insert_votes_error :: "thrown option"
  next_submission_id :: int
  next_vote_id :: int

text \<open>The \<open>useState\<close> variables of \<open>App\<close> that these handlers read or write.\<close>

record app_state =
  currentPhase :: Phase
  submissions :: "submission list"
  movieTitle :: string
  currentUser :: "users_row option"
  error :: "string option"
  isAdminMode :: bool
  searchResults :: "MovieResult list"
  selectedMovie :: "MovieResult option"
  userVotes :: "submission list"

definition MAX_SUBMISSIONS :: nat where
  "MAX_SUBMISSIONS = 2"

text \<open>
  \<open>determineCurrentPhase\<close>; \<open>dayOfWeek\<close> is \<open>new Date().getDay()\<close>, from 0 (Sunday) to 6
  (Saturday). The constructors of \<open>Phase\<close> stand for \<open>'submission'\<close>, \<open>'voting'\<close> and
  \<open>'winner'\<close>.
\<close>

definition determineCurrentPhase :: "nat \<Rightarrow> app_state \<Rightarrow> app_state" where
  "determineCurrentPhase dayOfWeek st =
     (if dayOfWeek = 4 then st\<lparr>currentPhase := winner_phase\<rparr>
      else if dayOfWeek \<ge> 2 then st\<lparr>currentPhase := voting\<rparr>
      else st\<lparr>currentPhase := submission_phase\<rparr>)"

text \<open>The effect that sets the phase: \<open>if (!isAdminMode) determineCurrentPhase()\<close>. In
  admin mode the phase is the one chosen by hand and stays.\<close>

definition phase_effect :: "backend \<Rightarrow> app_state \<Rightarrow> app_state" where
  "phase_effect be st =
     (if \<not> isAdminMode st then determineCurrentPhase (day_of_week be) st else st)"

text \<open>
  \<open>getCurrentMovieNight\<close>: \<open>Math.max(1, Math.ceil((now - start) / week))\<close> with
  \<open>start = new Date('2023-01-18')\<close>, in milliseconds since the epoch.
\<close>

definition getCurrentMovieNight :: "int \<Rightarrow> int" where
  "getCurrentMovieNight now =
     (let timeDiff = now - 1674000000000;
          weeksDiff = - ((- timeDiff) div (7 * 24 * 60 * 60 * 1000))
      in max 1 weeksDiff)"

text \<open>\<open>ensureMovieNightExists\<close>: select the night; insert it when no row comes back. Either
  request may fail; the \<open>catch\<close> sets the error and returns \<open>false\<close>.\<close>

definition ensureMovieNightExists ::
  "backend \<Rightarrow> int \<Rightarrow> database \<times> app_state \<Rightarrow> bool \<times> database \<times> app_state"
where
  "ensureMovieNightExists be nightId = (\<lambda>(db, st).
     (case select_night_error be of
        Some checkError \<Rightarrow> (False, db, st\<lparr>error := Some (error_message checkError)\<rparr>)
      | None \<Rightarrow>
          (let data = filter (\<lambda>r. mn_night_id r = nightId) (movie_nights db)
           in if length data = 0
              then (case insert_night_error be of
                      Some createError \<Rightarrow>
                        (False, db, st\<lparr>error := Some (error_message createError)\<rparr>)
                    | None \<Rightarrow>
                        (True,
                         db\<lparr>movie_nights := movie_nights db @
                              [\<lparr>mn_night_id = nightId, date = now_iso be, mn_movie_id = None\<rparr>]\<rparr>,
                         st))
              else (True, db, st))))"

text \<open>\<open>`You can only submit ${MAX_SUBMISSIONS} movies per movie night`\<close>\<close>

definition quota_message :: string where
  "quota_message = ''You can only submit 2 movies per movie night''"

text \<open>
  \<open>handleSubmitMovie\<close>. The quota is checked on \<open>submissions\<close>, the rows of the current
  night as the application has loaded them. The handler ends by starting
  \<open>fetchSubmissions()\<close>, which reloads that list and is not part of the model.
\<close>

definition handleSubmitMovie :: "backend \<Rightarrow> database \<times> app_state \<Rightarrow> database \<times> app_state" where
  "handleSubmitMovie be = (\<lambda>(db, st).
     (case (selectedMovie st, currentUser st) of
        (Some movie, Some user) \<Rightarrow>
          (let userSubmissions = filter (\<lambda>s. user_id s = users_user_id user) (submissions st)
           in if length userSubmissions \<ge> MAX_SUBMISSIONS
              then (db, st\<lparr>error := Some quota_message\<rparr>)
              else
                (let nightId = getCurrentMovieNight (now_ms be)
                 in case ensureMovieNightExists be nightId (db, st) of
                      (False, db1, st1) \<Rightarrow>
                        (db1, st1\<lparr>error := Some ''Failed to create movie night''\<rparr>)
                    | (True, db1, st1) \<Rightarrow>
                        (case insert_submission_error be of
                           Some err \<Rightarrow> (db1, st1\<lparr>error := Some (error_message err)\<rparr>)
                         | None \<Rightarrow>
                             (db1\<lparr>submissions_table := submissions_table db1 @
                                    [\<lparr>row_submission_id = next_submission_id be,
                                      row_night_id = nightId,
                                      row_user_id = users_user_id user,
                                      row_movie_id = movie_result_id movie,
                                      row_created_at = now_iso be\<rparr>]\<rparr>,
                              st1\<lparr>movieTitle := [], selectedMovie := None,
                                  searchResults := []\<rparr>))))
      | _ \<Rightarrow> (db, st)))"

text \<open>
  The rows \<open>handleSubmitVotes\<close> sends to \<open>insert\<close> (the \<open>Insert\<close> type of the \<open>votes\<close> table):
  \<open>userVotes.map((submission, index) => ({submission_id, user_id, rank: index + 1}))\<close>.
  The store fills in \<open>vote_id\<close> and \<open>created_at\<close>.
\<close>

record votes_insert =
  ins_vote_id :: "int option"
  ins_submission_id :: int
  ins_user_id :: int
  ins_rank :: int
  ins_created_at :: "string option"

definition votes_payload :: "int \<Rightarrow> submission list \<Rightarrow> votes_insert list" where
  "votes_payload uid vs =
     map (\<lambda>(index, submission).
            \<lparr>ins_vote_id = None, ins_submission_id = submission_id submission,
             ins_user_id = uid, ins_rank = int index + 1, ins_created_at = None\<rparr>)
         (enumerate 0 vs)"

definition insert_votes :: "backend \<Rightarrow> votes_insert list \<Rightarrow> vote list \<Rightarrow> vote list" where
  "insert_votes be payload table =
     table @
     map (\<lambda>(i, p).
            \<lparr>vote_id = (case ins_vote_id p of Some k \<Rightarrow> k | None \<Rightarrow> next_vote_id be + int i),
             vote_submission_id = ins_submission_id p,
             vote_user_id = ins_user_id p,
             rank = ins_rank p,
             vote_created_at = (case ins_created_at p of Some c \<Rightarrow> c | None \<Rightarrow> now_iso be)\<rparr>)
         (enumerate 0 payload)"

text \<open>
  \<open>handleSubmitVotes\<close>: delete the user's votes for the listed submissions
  (\<open>.eq('user_id', ...).in('submission_id', userVotes.map(s => s.submission_id))\<close>), then
  insert the new rows. A failed request sets the error and ends the handler; the
  trailing \<open>fetchSubmissions()\<close> is not part of the model.
\<close>

definition handleSubmitVotes :: "backend \<Rightarrow> database \<times> app_state \<Rightarrow> database \<times> app_state" where
  "handleSubmitVotes be = (\<lambda>(db, st).
     (case currentUser st of
        None \<Rightarrow> (db, st)
      | Some user \<Rightarrow>
          (case delete_votes_error be of
             Some deleteError \<Rightarrow> (db, st\<lparr>error := Some (error_message deleteError)\<rparr>)
           | None \<Rightarrow>
               (let db1 = db\<lparr>votes_table :=
                            filter (\<lambda>v. \<not> (vote_user_id v = users_user_id user \<and>
                                           vote_submission_id v \<in> set (map submission_id (userVotes st))))
                              (votes_table db)\<rparr>
                in case insert_votes_error be of
                     Some insertError \<Rightarrow> (db1, st\<lparr>error := Some (error_message insertError)\<rparr>)
                   | None \<Rightarrow>
                       (db1\<lparr>votes_table :=
                              insert_votes be (votes_payload (users_user_id user) (userVotes st))
                                (votes_table db1)\<rparr>,
                        st)))))"


section \<open>Facts about one round\<close>

text \<open>
  The number of first-place votes a submission has at the moment, as the counting pass
  reads it: through the array stored under the submission's id.
\<close>

definition storedCount :: "votes_store \<Rightarrow> submission \<Rightarrow> nat" where
  "storedCount vbs s =
     (case vbs (submission_id s) of Some vs \<Rightarrow> firstChoiceVotes vs | None \<Rightarrow> 0)"

text \<open>Every remaining submission has an array in \<open>votesBySubmission\<close>: the counting pass
  cannot raise.\<close>

definition keys_present :: "tally_state \<Rightarrow> bool" where
  "keys_present st \<longleftrightarrow>
     list_all (\<lambda>s. votesBySubmission st (submission_id s) \<noteq> None) (remainingSubmissions st)"

subsection \<open>The object built by \<open>reduce\<close>\<close>

lemma foldl_reduce_other:
  "k \<notin> submission_id ` set ss \<Longrightarrow>
   foldl (\<lambda>acc s. acc(submission_id s \<mapsto> votes s)) m ss k = m k"
  by (induction ss arbitrary: m) auto

lemma foldl_reduce_dom:
  "dom (foldl (\<lambda>acc s. acc(submission_id s \<mapsto> votes s)) m ss) = dom m \<union> submission_id ` set ss"
  by (induction ss arbitrary: m) auto

lemma reduce_dom: "dom (votesBySubmission_reduce ss) = submission_id ` set ss"
  by (simp add: votesBySubmission_reduce_def foldl_reduce_dom)

lemma foldl_reduce_distinct:
  "distinct (map submission_id ss) \<Longrightarrow> s \<in> set ss \<Longrightarrow>
   foldl (\<lambda>acc s. acc(submission_id s \<mapsto> votes s)) m ss (submission_id s) = Some (votes s)"
proof (induction ss arbitrary: m)
  case Nil
  then show ?case by simp
next
  case (Cons x xs)
  show ?case
  proof (cases "s = x")
    case True
    with Cons.prems have "submission_id x \<notin> submission_id ` set xs" by auto
    from foldl_reduce_other [OF this, of "m(submission_id x \<mapsto> votes x)"]
    have "foldl (\<lambda>acc s. acc(submission_id s \<mapsto> votes s))
        (m(submission_id x \<mapsto> votes x)) xs (submission_id x) = Some (votes x)"
      by simp
    with True show ?thesis by (simp del: fun_upd_apply)
  next
    case False
    with Cons show ?thesis by auto
  qed
qed

lemma reduce_distinct:
  "distinct (map submission_id ss) \<Longrightarrow> s \<in> set ss \<Longrightarrow>
   votesBySubmission_reduce ss (submission_id s) = Some (votes s)"
  by (simp add: votesBySubmission_reduce_def foldl_reduce_distinct)

lemma storedCount_reduce:
  "distinct (map submission_id ss) \<Longrightarrow> s \<in> set ss \<Longrightarrow>
   storedCount (votesBySubmission_reduce ss) s = firstChoiceVotes (votes s)"
  by (simp add: storedCount_def reduce_distinct)

subsection \<open>The counting pass\<close>

lemma countVotes_Inr:
  "list_all (\<lambda>s. vbs (submission_id s) \<noteq> None) ss \<Longrightarrow> \<exists>vc. countVotes vbs ss acc = Inr vc"
  by (induction ss arbitrary: acc) auto

lemma countVotes_Inr_D:
  "countVotes vbs ss acc = Inr vc \<Longrightarrow> list_all (\<lambda>s. vbs (submission_id s) \<noteq> None) ss"
  by (induction ss arbitrary: acc) (auto split: option.splits)

lemma update_fresh: "k \<notin> fst ` set al \<Longrightarrow> AList.update k v al = al @ [(k, v)]"
  by (induction al) auto

lemma countVotes_distinct:
  "distinct (map fst acc @ map submission_id ss) \<Longrightarrow>
   list_all (\<lambda>s. vbs (submission_id s) \<noteq> None) ss \<Longrightarrow>
   countVotes vbs ss acc = Inr (acc @ map (\<lambda>s. (submission_id s, storedCount vbs s)) ss)"
proof (induction ss arbitrary: acc)
  case Nil
  then show ?case by simp
next
  case (Cons s ss)
  from Cons.prems obtain vs where vs: "vbs (submission_id s) = Some vs" by auto
  have fresh: "submission_id s \<notin> fst ` set acc" using Cons.prems(1) by auto
  have d: "distinct (map fst (acc @ [(submission_id s, firstChoiceVotes vs)]) @ map submission_id ss)"
    using Cons.prems(1) by auto
  have "countVotes vbs ss (acc @ [(submission_id s, firstChoiceVotes vs)])
      = Inr ((acc @ [(submission_id s, firstChoiceVotes vs)]) @ map (\<lambda>s. (submission_id s, storedCount vbs s)) ss)"
    using Cons.prems(2) by (intro Cons.IH [OF d]) simp
  then show ?case
    using vs fresh by (simp add: update_fresh storedCount_def)
qed

lemma countVotes_distinct0:
  "distinct (map submission_id ss) \<Longrightarrow>
   list_all (\<lambda>s. vbs (submission_id s) \<noteq> None) ss \<Longrightarrow>
   countVotes vbs ss [] = Inr (map (\<lambda>s. (submission_id s, storedCount vbs s)) ss)"
  using countVotes_distinct [of "[]" ss vbs] by simp

subsection \<open>Reading the table of counts when ids are distinct\<close>

lemma map_of_table:
  "distinct (map submission_id ss) \<Longrightarrow> s \<in> set ss \<Longrightarrow>
   map_of (map (\<lambda>s. (submission_id s, f s)) ss) (submission_id s) = Some (f s)"
  by (induction ss) (auto simp: rev_image_eqI)

lemma voteCount_get_table:
  "distinct (map submission_id ss) \<Longrightarrow> s \<in> set ss \<Longrightarrow>
   voteCount_get (map (\<lambda>s. (submission_id s, f s)) ss) (submission_id s) = f s"
  by (simp add: voteCount_get_def map_of_table)

lemma totalVotes_table:
  "totalVotes (map (\<lambda>s. (submission_id s, f s)) ss) = sum_list (map f ss)"
  by (simp add: totalVotes_def comp_def)

lemma findMajority_table:
  assumes "distinct (map submission_id ss)"
  shows "findMajority (map (\<lambda>s. (submission_id s, f s)) ss) ss
       = find (\<lambda>s. sum_list (map f ss) < 2 * f s) ss"
  unfolding findMajority_def totalVotes_table
  using assms by (intro find_cong refl) (simp add: voteCount_get_table)

lemma find_map_entry:
  "find (\<lambda>(k, c). P c) (map (\<lambda>s. (g s, f s)) ss) = map_option (\<lambda>s. (g s, f s)) (find (\<lambda>s. P (f s)) ss)"
  by (induction ss) auto

lemma losingSubmissionId_table:
  assumes "ss \<noteq> []"
  shows "losingSubmissionId (map (\<lambda>s. (submission_id s, f s)) ss)
       = map_option submission_id (find (\<lambda>s. f s = Min (f ` set ss)) ss)"
proof -
  have "math_min (map f ss) = Some (Min (f ` set ss))"
    using assms math_min_Some [of "map f ss"] by simp
  then show ?thesis
    by (simp add: losingSubmissionId_def comp_def find_map_entry option.map_comp)
qed

lemma find_min_exists:
  assumes "ss \<noteq> []"
  shows "\<exists>l. find (\<lambda>s. f s = Min (f ` set ss)) ss = Some l \<and> l \<in> set ss"
proof -
  have "Min (f ` set ss) \<in> f ` set ss" using assms by (intro Min_in) auto
  then obtain x where "x \<in> set ss" "f x = Min (f ` set ss)" by auto
  then have "find (\<lambda>s. f s = Min (f ` set ss)) ss \<noteq> None" by (auto simp: find_None_iff)
  then obtain l where l: "find (\<lambda>s. f s = Min (f ` set ss)) ss = Some l" by auto
  then have "l \<in> set ss" by (auto simp: find_Some_iff)
  with l show ?thesis by simp
qed

lemma filter_id_remove1:
  "distinct (map submission_id ss) \<Longrightarrow> l \<in> set ss \<Longrightarrow>
   filter (\<lambda>s. submission_id s \<noteq> submission_id l) ss = remove1 l ss"
proof (induction ss)
  case Nil
  then show ?case by simp
next
  case (Cons x xs)
  show ?case
  proof (cases "x = l")
    case True
    with Cons.prems have "submission_id l \<notin> submission_id ` set xs" by auto
    then have "\<forall>s\<in>set xs. submission_id s \<noteq> submission_id l"
      by (metis imageI)
    then have "filter (\<lambda>s. submission_id s \<noteq> submission_id l) xs = xs"
      by (simp add: filter_id_conv)
    with True show ?thesis by simp
  next
    case False
    with Cons.prems have "submission_id x \<noteq> submission_id l" by (auto simp: rev_image_eqI)
    with False Cons show ?thesis by auto
  qed
qed

subsection \<open>A round on distinct ids\<close>

text \<open>
  Submission ids are the primary key of the \<open>submissions\<close> table, so the rows the
  application passes have distinct ids. Then the table of counts lists the remaining
  submissions in order, and a round either names a winner or takes out one submission
  \<open>l\<close> and, when \<open>l\<close>'s id passes the truthiness test, lowers the ranks above \<open>l\<close>'s
  count.
\<close>

definition eliminate :: "tally_state \<Rightarrow> submission \<Rightarrow> tally_state" where
  "eliminate st l =
     st\<lparr>remainingSubmissions := remove1 l (remainingSubmissions st),
        votesBySubmission :=
          (if submission_id l \<noteq> 0
           then rerankAll (Some (storedCount (votesBySubmission st) l)) (votesBySubmission st)
           else votesBySubmission st)\<rparr>"

lemma runoff_round_distinct:
  assumes d: "distinct (map submission_id (remainingSubmissions st))"
      and k: "keys_present st"
      and ne: "remainingSubmissions st \<noteq> []"
  defines "cnt \<equiv> storedCount (votesBySubmission st)"
  defines "rem \<equiv> remainingSubmissions st"
  shows "runoff_round st =
      (case find (\<lambda>s. sum_list (map cnt rem) < 2 * cnt s) rem of
         Some w \<Rightarrow> Inr (st\<lparr>winner := Some w\<rparr>)
       | None \<Rightarrow>
          (case find (\<lambda>s. cnt s = Min (cnt ` set rem)) rem of
             Some l \<Rightarrow> Inr (eliminate st l)
           | None \<Rightarrow> Inr st))"
proof -
  let ?vc = "map (\<lambda>s. (submission_id s, cnt s)) rem"
  have vc: "countVotes (votesBySubmission st) (remainingSubmissions st) [] = Inr ?vc"
    using d k unfolding cnt_def rem_def keys_present_def by (rule countVotes_distinct0)
  have maj: "findMajority ?vc rem = find (\<lambda>s. sum_list (map cnt rem) < 2 * cnt s) rem"
    using d unfolding rem_def by (rule findMajority_table)
  from find_min_exists [OF ne, of cnt] obtain l where
    l: "find (\<lambda>s. cnt s = Min (cnt ` set rem)) rem = Some l" and lin: "l \<in> set rem"
    unfolding rem_def by blast
  have los: "losingSubmissionId ?vc = Some (submission_id l)"
    using ne l unfolding rem_def by (simp add: losingSubmissionId_table)
  have flt: "filter (\<lambda>s. Some (submission_id s) \<noteq> Some (submission_id l)) rem = remove1 l rem"
    using filter_id_remove1 [of rem l] d lin unfolding rem_def by simp
  have thr: "map_of ?vc (submission_id l) = Some (cnt l)"
    using d lin unfolding rem_def by (rule map_of_table)
  show ?thesis
  proof (cases "find (\<lambda>s. sum_list (map cnt rem) < 2 * cnt s) rem")
    case (Some w)
    with vc maj show ?thesis
      by (simp add: runoff_round_def rem_def)
  next
    case None
    with vc maj los flt thr l show ?thesis
      by (simp add: runoff_round_def rem_def [symmetric] eliminate_def cnt_def)
  qed
qed

subsection \<open>What a round can do, on any input\<close>

lemma rerank_None [simp]: "rerank None = (\<lambda>v. v)"
  by (simp add: fun_eq_iff rerank_def)

lemma rerankAll_None [simp]: "rerankAll None vbs = vbs"
  by (simp add: rerankAll_def fun_eq_iff option.map_ident)

lemma runoff_round_cases:
  assumes "runoff_round st = Inr st'"
  obtains (win) w where "w \<in> set (remainingSubmissions st)" "st' = st\<lparr>winner := Some w\<rparr>"
  | (elim) P t where
      "st' = st\<lparr>remainingSubmissions := filter P (remainingSubmissions st),
                 votesBySubmission := rerankAll t (votesBySubmission st)\<rparr>"
proof -
  from assms obtain vc where
    vc: "countVotes (votesBySubmission st) (remainingSubmissions st) [] = Inr vc"
    by (auto simp: runoff_round_def split: sum.splits)
  show ?thesis
  proof (cases "findMajority vc (remainingSubmissions st)")
    case (Some w)
    then have "w \<in> set (remainingSubmissions st)"
      by (auto simp: findMajority_def find_Some_iff)
    moreover have "st' = st\<lparr>winner := Some w\<rparr>"
      using assms vc Some by (simp add: runoff_round_def)
    ultimately show ?thesis by (rule win)
  next
    case None
    let ?P = "\<lambda>s. Some (submission_id s) \<noteq> losingSubmissionId vc"
    show ?thesis
    proof (cases "losingSubmissionId vc")
      case N: None
      with assms vc None
      have "st' = st\<lparr>remainingSubmissions := filter ?P (remainingSubmissions st)\<rparr>"
        by (simp add: runoff_round_def)
      also have "\<dots> = st\<lparr>remainingSubmissions := filter ?P (remainingSubmissions st),
                 votesBySubmission := rerankAll None (votesBySubmission st)\<rparr>"
        by simp
      finally show ?thesis by (rule elim)
    next
      case (Some l)
      show ?thesis
      proof (cases "l = 0")
        case True
        with assms vc None Some
        have "st' = st\<lparr>remainingSubmissions := filter ?P (remainingSubmissions st)\<rparr>"
          by (simp add: runoff_round_def)
        also have "\<dots> = st\<lparr>remainingSubmissions := filter ?P (remainingSubmissions st),
                 votesBySubmission := rerankAll None (votesBySubmission st)\<rparr>"
          by simp
        finally show ?thesis by (rule elim)
      next
        case False
        with assms vc None Some
        have "st' = st\<lparr>remainingSubmissions := filter ?P (remainingSubmissions st),
                 votesBySubmission := rerankAll (map_of vc l) (votesBySubmission st)\<rparr>"
          by (simp add: runoff_round_def)
        then show ?thesis by (rule elim)
      qed
    qed
  qed
qed

lemma rerankAll_dom [simp]: "rerankAll t vbs k = None \<longleftrightarrow> vbs k = None"
  by (simp add: rerankAll_def)

lemma runoff_round_keys_present:
  assumes "runoff_round st = Inr st'" and "keys_present st"
  shows "keys_present st'"
  using assms(1)
proof (cases rule: runoff_round_cases)
  case (win w)
  with assms(2) show ?thesis by (simp add: keys_present_def)
next
  case (elim P t)
  with assms(2) show ?thesis by (auto simp: keys_present_def list_all_iff)
qed

lemma runoff_round_distinct_ids:
  assumes "runoff_round st = Inr st'" and "distinct (map submission_id (remainingSubmissions st))"
  shows "distinct (map submission_id (remainingSubmissions st'))"
  using assms(1)
proof (cases rule: runoff_round_cases)
  case (win w)
  with assms(2) show ?thesis by simp
next
  case (elim P t)
  with assms(2) show ?thesis by (simp add: distinct_map_filter)
qed

lemma runoff_round_subset:
  assumes "runoff_round st = Inr st'"
  shows "set (remainingSubmissions st') \<subseteq> set (remainingSubmissions st)"
  using assms by (cases rule: runoff_round_cases) auto

lemma runoff_round_total:
  "keys_present st \<Longrightarrow> \<exists>st'. runoff_round st = Inr st'"
proof -
  assume "keys_present st"
  then obtain vc where "countVotes (votesBySubmission st) (remainingSubmissions st) [] = Inr vc"
    using countVotes_Inr [of "votesBySubmission st" "remainingSubmissions st" "[]"]
    by (auto simp: keys_present_def)
  then show ?thesis
    by (simp add: runoff_round_def Let_def split: option.splits)
qed

section \<open>Facts about the loop\<close>

lemma irv_loop_total: "keys_present st \<Longrightarrow> \<exists>st'. irv_loop st = Inr st'"
proof (induction st rule: irv_loop.induct)
  case (1 st)
  show ?case
  proof (cases "loop_cond st")
    case False
    then show ?thesis by (simp add: irv_loop.simps)
  next
    case True
    from runoff_round_total [OF "1.prems"] obtain st1 where r: "runoff_round st = Inr st1" ..
    from runoff_round_keys_present [OF r "1.prems"] have "keys_present st1" .
    from "1.IH" [OF True r this] obtain st' where "irv_loop st1 = Inr st'" ..
    with True r show ?thesis by (simp add: irv_loop.simps [of st])
  qed
qed

lemma irv_loop_exit: "irv_loop st = Inr st' \<Longrightarrow> \<not> loop_cond st'"
proof (induction st rule: irv_loop.induct)
  case (1 st)
  show ?case
  proof (cases "loop_cond st")
    case False
    with "1.prems" show ?thesis by (simp add: irv_loop.simps [of st])
  next
    case True
    with "1.prems" obtain st1 where r: "runoff_round st = Inr st1" and l: "irv_loop st1 = Inr st'"
      by (auto simp: irv_loop.simps [of st] split: sum.splits)
    from "1.IH" [OF True r l] show ?thesis .
  qed
qed

lemma irv_loop_subset:
  "irv_loop st = Inr st' \<Longrightarrow> set (remainingSubmissions st') \<subseteq> set (remainingSubmissions st)"
proof (induction st rule: irv_loop.induct)
  case (1 st)
  show ?case
  proof (cases "loop_cond st")
    case False
    with "1.prems" show ?thesis by (simp add: irv_loop.simps [of st])
  next
    case True
    with "1.prems" obtain st1 where r: "runoff_round st = Inr st1" and l: "irv_loop st1 = Inr st'"
      by (auto simp: irv_loop.simps [of st] split: sum.splits)
    from "1.IH" [OF True r l] runoff_round_subset [OF r] show ?thesis by blast
  qed
qed

lemma irv_loop_winner:
  "irv_loop st = Inr st' \<Longrightarrow> winner st = None \<Longrightarrow> winner st' = Some w \<Longrightarrow>
   w \<in> set (remainingSubmissions st')"
proof (induction st rule: irv_loop.induct)
  case (1 st)
  show ?case
  proof (cases "loop_cond st")
    case False
    with "1.prems" show ?thesis by (simp add: irv_loop.simps [of st])
  next
    case True
    with "1.prems" obtain st1 where r: "runoff_round st = Inr st1" and l: "irv_loop st1 = Inr st'"
      by (auto simp: irv_loop.simps [of st] split: sum.splits)
    from r show ?thesis
    proof (cases rule: runoff_round_cases)
      case (win w1)
      then have "\<not> loop_cond st1" by (simp add: loop_cond_def)
      with l have "st' = st1" by (simp add: irv_loop.simps [of st1])
      with win "1.prems"(3) show ?thesis by simp
    next
      case (elim P t)
      with "1.prems"(2) have "winner st1 = None" by simp
      from "1.IH" [OF True r l this "1.prems"(3)] show ?thesis .
    qed
  qed
qed

lemma loop_iterations_bound: "loop_iterations st \<le> length (remainingSubmissions st)"
proof (induction st rule: loop_iterations.induct)
  case (1 st)
  show ?case
  proof (cases "loop_cond st")
    case False
    then show ?thesis by (simp add: loop_iterations.simps [of st])
  next
    case True
    then have ne: "Suc 0 \<le> length (remainingSubmissions st)"
      by (cases "remainingSubmissions st") (simp_all add: loop_cond_def)
    show ?thesis
    proof (cases "runoff_round st")
      case (Inl e)
      with True ne show ?thesis by (simp add: loop_iterations.simps [of st])
    next
      case (Inr st1)
      from runoff_round_progress [OF True Inr]
      show ?thesis
      proof
        assume "winner st1 \<noteq> None"
        then have "\<not> loop_cond st1" by (simp add: loop_cond_def)
        then have "loop_iterations st1 = 0"
          by (simp add: loop_iterations.simps [of st1])
        with True Inr ne show ?thesis by (simp add: loop_iterations.simps [of st])
      next
        assume "length (remainingSubmissions st1) < length (remainingSubmissions st)"
        with "1.IH" [OF True Inr] True Inr show ?thesis
          by (simp add: loop_iterations.simps [of st])
      qed
    qed
  qed
qed

lemma irv_loop_loop_state: "irv_loop st = loop_state (loop_iterations st) st"
proof (induction st rule: irv_loop.induct)
  case (1 st)
  show ?case
  proof (cases "loop_cond st")
    case False
    then show ?thesis by (simp add: irv_loop.simps [of st] loop_iterations.simps [of st])
  next
    case True
    show ?thesis
    proof (cases "runoff_round st")
      case (Inl e)
      with True show ?thesis by (simp add: irv_loop.simps [of st] loop_iterations.simps [of st])
    next
      case (Inr st1)
      with True "1.IH" [OF True Inr] show ?thesis
        by (simp add: irv_loop.simps [of st] loop_iterations.simps [of st])
    qed
  qed
qed

lemma loop_state_inv:
  "loop_state n st = Inr st' \<Longrightarrow> keys_present st \<Longrightarrow>
   distinct (map submission_id (remainingSubmissions st)) \<Longrightarrow>
   keys_present st' \<and> distinct (map submission_id (remainingSubmissions st'))"
proof (induction n arbitrary: st)
  case 0
  then show ?case by simp
next
  case (Suc n)
  show ?case
  proof (cases "loop_cond st")
    case False
    with Suc.prems show ?thesis by simp
  next
    case True
    with Suc.prems(1) obtain st1 where r: "runoff_round st = Inr st1" and l: "loop_state n st1 = Inr st'"
      by (auto split: sum.splits)
    from Suc.IH [OF l runoff_round_keys_present [OF r Suc.prems(2)]
        runoff_round_distinct_ids [OF r Suc.prems(3)]]
    show ?thesis .
  qed
qed

lemma initial_keys_present: "keys_present (initial_state ss)"
proof -
  have "\<forall>s\<in>set ss. votesBySubmission_reduce ss (submission_id s) \<noteq> None"
    using reduce_dom [of ss] by (metis domIff imageI)
  then show ?thesis by (simp add: keys_present_def initial_state_def list_all_iff)
qed

section \<open>Example rows\<close>

text \<open>Rows with only the fields the tally reads filled in; the concrete runs below are
  built from them.\<close>

definition ballot :: "int \<Rightarrow> int \<Rightarrow> int \<Rightarrow> int \<Rightarrow> vote" where
  "ballot i s u r =
     \<lparr>vote_id = i, vote_submission_id = s, vote_user_id = u, rank = r, vote_created_at = ''''\<rparr>"

definition candidate :: "int \<Rightarrow> vote list \<Rightarrow> submission" where
  "candidate i vs =
     \<lparr>submission_id = i, night_id = 1, user_id = 1, movie_id = 1, created_at = '''',
      users = None, votes = vs, voteCount = length vs\<rparr>"

lemmas tally_eval =
  calculateInstantRunoffWinner_def initial_state_def loop_cond_def runoff_round_def
  votesBySubmission_reduce_def firstChoiceVotes_def findMajority_def totalVotes_def
  voteCount_get_def losingSubmissionId_def final_result_def rerankAll_def rerank_def
  candidate_def ballot_def


section \<open>Properties of the tally\<close>

subsection \<open>The result is a candidate of the input\<close>

text \<open>
  Claim C10. For every input the tally returns either \<open>null\<close> or one of the submissions
  of the input list, and it never raises. The loop ends either with a winner, which is
  one of the remaining submissions (all of them submissions of the input), or with no
  winner and nothing remaining; so \<open>winner || remainingSubmissions[0] || null\<close> is just
  \<open>winner\<close> and the fallback \<open>remainingSubmissions[0]\<close> never supplies the result.
\<close>

theorem tally_result_is_input_candidate:
  "\<exists>st. irv_loop (initial_state candidates) = Inr st
      \<and> (winner st = None \<longrightarrow> remainingSubmissions st = [])
      \<and> (\<forall>w. winner st = Some w \<longrightarrow> w \<in> set (remainingSubmissions st))
      \<and> set (remainingSubmissions st) \<subseteq> set candidates
      \<and> final_result st = winner st
      \<and> (\<exists>r store. calculateInstantRunoffWinner candidates = Inr (r, store)
            \<and> (r = None \<or> (\<exists>s \<in> set candidates. r = Some s))
            \<and> (candidates \<noteq> [] \<longrightarrow> r = winner st))"
proof -
  let ?i = "initial_state candidates"
  from irv_loop_total [OF initial_keys_present] obtain st where st: "irv_loop ?i = Inr st" ..
  have w0: "winner ?i = None" by (simp add: initial_state_def)
  from irv_loop_exit [OF st] have ex: "winner st = None \<longrightarrow> remainingSubmissions st = []"
    by (auto simp: loop_cond_def)
  have win: "\<forall>w. winner st = Some w \<longrightarrow> w \<in> set (remainingSubmissions st)"
    using irv_loop_winner [OF st w0] by blast
  have sub: "set (remainingSubmissions st) \<subseteq> set candidates"
    using irv_loop_subset [OF st] by (simp add: initial_state_def)
  have fin: "final_result st = winner st"
    using ex by (cases "winner st") (simp_all add: final_result_def)
  have res: "\<exists>r store. calculateInstantRunoffWinner candidates = Inr (r, store)
            \<and> (r = None \<or> (\<exists>s \<in> set candidates. r = Some s))
            \<and> (candidates \<noteq> [] \<longrightarrow> r = winner st)"
  proof (cases "candidates = []")
    case True
    then show ?thesis by (simp add: calculateInstantRunoffWinner_def)
  next
    case False
    then have c: "calculateInstantRunoffWinner candidates = Inr (winner st, votesBySubmission st)"
      using st fin by (simp add: calculateInstantRunoffWinner_def)
    have "winner st = None \<or> (\<exists>s \<in> set candidates. winner st = Some s)"
    proof (cases "winner st")
      case None
      then show ?thesis by simp
    next
      case (Some w)
      with win sub show ?thesis by auto
    qed
    with c show ?thesis by simp
  qed
  show ?thesis by (intro exI [of _ st] conjI st ex win sub fin res)
qed

text \<open>A run that selects the candidate with the only first-place vote.\<close>

theorem tally_result_is_input_candidate_witness:
  "calculateInstantRunoffWinner [candidate 1 [ballot 1 1 1 1], candidate 2 []]
     = Inr (Some (candidate 1 [ballot 1 1 1 1]),
            votesBySubmission_reduce [candidate 1 [ballot 1 1 1 1], candidate 2 []])"
  using tally_result_is_input_candidate [of "[candidate 1 [ballot 1 1 1 1], candidate 2 []]"]
  by (simp add: tally_eval irv_loop.simps)

subsection \<open>Termination\<close>

lemma runoff_round_removes_one:
  assumes d: "distinct (map submission_id (remainingSubmissions st))"
      and k: "keys_present st"
      and c: "loop_cond st"
  shows "\<exists>st'. runoff_round st = Inr st'
      \<and> (winner st' \<noteq> None \<and> remainingSubmissions st' = remainingSubmissions st
         \<or> winner st' = None
           \<and> Suc (length (remainingSubmissions st')) = length (remainingSubmissions st))"
proof -
  let ?cnt = "storedCount (votesBySubmission st)"
  let ?rem = "remainingSubmissions st"
  from c have ne: "?rem \<noteq> []" and w: "winner st = None" by (simp_all add: loop_cond_def)
  note r = runoff_round_distinct [OF d k ne]
  show ?thesis
  proof (cases "find (\<lambda>s. sum_list (map ?cnt ?rem) < 2 * ?cnt s) ?rem")
    case (Some w)
    with r show ?thesis by simp
  next
    case None
    from find_min_exists [OF ne, of ?cnt] obtain l where
      l: "find (\<lambda>s. ?cnt s = Min (?cnt ` set ?rem)) ?rem = Some l" and lin: "l \<in> set ?rem"
      by blast
    from r None l have e: "runoff_round st = Inr (eliminate st l)" by simp
    have "Suc (length (remove1 l ?rem)) = length ?rem"
      using lin ne by (simp add: length_remove1)
    with e w show ?thesis by (simp add: eliminate_def)
  qed
qed

text \<open>
  Claim C6. The tally returns on every input. Its loop is the iteration of the round
  \<open>loop_iterations\<close> times, which is at most once per submission of the input. Every
  round that names no winner shortens \<open>remainingSubmissions\<close>; on the rows of the
  \<open>submissions\<close> table, whose ids are distinct, it takes out exactly one submission,
  and a round that names a winner takes out none.
\<close>

theorem tally_terminates:
  "(\<exists>r. calculateInstantRunoffWinner candidates = Inr r)
   \<and> irv_loop (initial_state candidates)
       = loop_state (loop_iterations (initial_state candidates)) (initial_state candidates)
   \<and> loop_iterations (initial_state candidates) \<le> length candidates
   \<and> (\<forall>n st st'. loop_state n (initial_state candidates) = Inr st \<and> loop_cond st
          \<and> runoff_round st = Inr st' \<longrightarrow>
        winner st' \<noteq> None
        \<or> length (remainingSubmissions st') < length (remainingSubmissions st))
   \<and> (distinct (map submission_id candidates) \<longrightarrow>
        (\<forall>n st. loop_state n (initial_state candidates) = Inr st \<and> loop_cond st \<longrightarrow>
          (\<exists>st'. runoff_round st = Inr st'
            \<and> (winner st' \<noteq> None \<and> remainingSubmissions st' = remainingSubmissions st
               \<or> winner st' = None
                 \<and> Suc (length (remainingSubmissions st')) = length (remainingSubmissions st)))))"
proof -
  let ?i = "initial_state candidates"
  from irv_loop_total [OF initial_keys_present] obtain st where st: "irv_loop ?i = Inr st" ..
  then have ret: "\<exists>r. calculateInstantRunoffWinner candidates = Inr r"
    by (simp add: calculateInstantRunoffWinner_def)
  have unf: "irv_loop ?i = loop_state (loop_iterations ?i) ?i"
    by (rule irv_loop_loop_state)
  have bound: "loop_iterations ?i \<le> length candidates"
    using loop_iterations_bound [of ?i] by (simp add: initial_state_def)
  have prog: "\<forall>n st st'. loop_state n ?i = Inr st \<and> loop_cond st \<and> runoff_round st = Inr st' \<longrightarrow>
        winner st' \<noteq> None
        \<or> length (remainingSubmissions st') < length (remainingSubmissions st)"
    using runoff_round_progress by blast
  have one: "distinct (map submission_id candidates) \<longrightarrow>
        (\<forall>n st. loop_state n ?i = Inr st \<and> loop_cond st \<longrightarrow>
          (\<exists>st'. runoff_round st = Inr st'
            \<and> (winner st' \<noteq> None \<and> remainingSubmissions st' = remainingSubmissions st
               \<or> winner st' = None
                 \<and> Suc (length (remainingSubmissions st')) = length (remainingSubmissions st))))"
  proof (intro impI allI)
    fix n st
    assume d: "distinct (map submission_id candidates)"
       and ls: "loop_state n ?i = Inr st \<and> loop_cond st"
    have "distinct (map submission_id (remainingSubmissions ?i))"
      using d by (simp add: initial_state_def)
    from loop_state_inv [OF conjunct1 [OF ls] initial_keys_present this]
    have "keys_present st" and "distinct (map submission_id (remainingSubmissions st))"
      by simp_all
    from runoff_round_removes_one [OF this(2) this(1) conjunct2 [OF ls]]
    show "\<exists>st'. runoff_round st = Inr st'
            \<and> (winner st' \<noteq> None \<and> remainingSubmissions st' = remainingSubmissions st
               \<or> winner st' = None
                 \<and> Suc (length (remainingSubmissions st')) = length (remainingSubmissions st))" .
  qed
  show ?thesis by (intro conjI ret unf bound prog one)
qed

text \<open>Two candidates without votes: two rounds, one elimination each.\<close>

theorem tally_terminates_witness:
  "loop_iterations (initial_state [candidate 1 [], candidate 2 []]) = 2
   \<and> (\<exists>st'. runoff_round (initial_state [candidate 1 [], candidate 2 []]) = Inr st'
         \<and> winner st' = None \<and> remainingSubmissions st' = [candidate 2 []])
   \<and> (\<exists>r. calculateInstantRunoffWinner [candidate 1 [], candidate 2 []] = Inr r)"
  using tally_terminates [of "[candidate 1 [], candidate 2 []]"]
  by (simp add: tally_eval loop_iterations.simps)

subsection \<open>A first-round majority\<close>

lemma two_in_sum_list:
  fixes f :: "'a \<Rightarrow> nat"
  assumes "a \<in> set xs" "b \<in> set xs" "a \<noteq> b"
  shows "f a + f b \<le> sum_list (map f xs)"
proof -
  have "sum_list (map f xs) = f a + sum_list (map f (remove1 a xs))"
    using assms(1) by (rule sum_list_map_remove1)
  moreover have "b \<in> set (remove1 a xs)" using assms(2,3) by simp
  then have "f b \<le> sum_list (map f (remove1 a xs))"
    by (simp add: member_le_sum_list)
  ultimately show ?thesis by simp
qed

text \<open>
  Claim C1. Let the submissions have distinct ids and let \<open>c\<close> be one of them whose
  number of rank-1 votes is more than half of the rank-1 votes of all submissions. Then
  the tally returns \<open>c\<close>: the first round names it, it is the only round, no submission
  is taken out and no ballot is changed. \<open>c\<close> is the first submission, in the order of
  the list passed, whose count exceeds half of the total.
\<close>

theorem majority_wins_first_round:
  assumes d: "distinct (map submission_id candidates)"
      and c: "c \<in> set candidates"
      and m: "sum_list (map (\<lambda>s. firstChoiceVotes (votes s)) candidates)
                < 2 * firstChoiceVotes (votes c)"
  shows "calculateInstantRunoffWinner candidates
           = Inr (Some c, votesBySubmission_reduce candidates)
       \<and> runoff_round (initial_state candidates)
           = Inr ((initial_state candidates)\<lparr>winner := Some c\<rparr>)
       \<and> loop_iterations (initial_state candidates) = 1
       \<and> find (\<lambda>s. sum_list (map (\<lambda>s. firstChoiceVotes (votes s)) candidates)
                     < 2 * firstChoiceVotes (votes s)) candidates = Some c"
proof -
  let ?i = "initial_state candidates"
  let ?f = "\<lambda>s. firstChoiceVotes (votes s)"
  let ?cnt = "storedCount (votesBySubmission ?i)"
  let ?P = "\<lambda>s. sum_list (map ?f candidates) < 2 * ?f s"
  have rem: "remainingSubmissions ?i = candidates" by (simp add: initial_state_def)
  have cnt: "\<And>s. s \<in> set candidates \<Longrightarrow> ?cnt s = ?f s"
    using d by (simp add: initial_state_def storedCount_reduce)
  then have sum: "sum_list (map ?cnt candidates) = sum_list (map ?f candidates)"
    by (intro arg_cong [where f = sum_list] map_cong refl)
  have ne: "candidates \<noteq> []" using c by auto
  \<comment> \<open>the scan finds a majority candidate, and a majority candidate is unique\<close>
  from c m have "find ?P candidates \<noteq> None" by (auto simp: find_None_iff)
  then obtain w where w: "find ?P candidates = Some w" by auto
  then have win: "w \<in> set candidates" and Pw: "?P w" by (auto simp: find_Some_iff)
  have "w = c"
  proof (rule ccontr)
    assume "w \<noteq> c"
    from two_in_sum_list [OF win c this, of ?f] Pw m show False by simp
  qed
  with w have fnd: "find ?P candidates = Some c" by simp
  have "find (\<lambda>s. sum_list (map ?cnt candidates) < 2 * ?cnt s) candidates = find ?P candidates"
    unfolding sum by (intro find_cong refl) (simp add: cnt)
  with fnd have fc: "find (\<lambda>s. sum_list (map ?cnt candidates) < 2 * ?cnt s) candidates = Some c"
    by simp
  have round: "runoff_round ?i = Inr (?i\<lparr>winner := Some c\<rparr>)"
    using runoff_round_distinct [of ?i] d ne fc initial_keys_present [of candidates]
    by (simp add: rem)
  have lc: "loop_cond ?i" using ne by (simp add: loop_cond_def initial_state_def)
  have nlc: "\<not> loop_cond (?i\<lparr>winner := Some c\<rparr>)" by (simp add: loop_cond_def)
  have loop: "irv_loop ?i = Inr (?i\<lparr>winner := Some c\<rparr>)"
    using lc round nlc by (simp add: irv_loop.simps [of ?i] irv_loop.simps [of "?i\<lparr>winner := Some c\<rparr>"])
  have its: "loop_iterations ?i = 1"
    using lc round nlc
    by (simp add: loop_iterations.simps [of ?i] loop_iterations.simps [of "?i\<lparr>winner := Some c\<rparr>"])
  have res: "calculateInstantRunoffWinner candidates
           = Inr (Some c, votesBySubmission_reduce candidates)"
    using ne loop by (simp add: calculateInstantRunoffWinner_def final_result_def initial_state_def)
  from res round its fnd show ?thesis by simp
qed

text \<open>Candidate 7 holds two of the three first-place votes.\<close>

theorem majority_wins_first_round_witness:
  "distinct (map submission_id
      [candidate 5 [ballot 1 5 1 1], candidate 7 [ballot 2 7 2 1, ballot 3 7 3 1]])
   \<and> calculateInstantRunoffWinner
        [candidate 5 [ballot 1 5 1 1], candidate 7 [ballot 2 7 2 1, ballot 3 7 3 1]]
      = Inr (Some (candidate 7 [ballot 2 7 2 1, ballot 3 7 3 1]),
             votesBySubmission_reduce
               [candidate 5 [ballot 1 5 1 1], candidate 7 [ballot 2 7 2 1, ballot 3 7 3 1]])"
proof -
  let ?c = "candidate 7 [ballot 2 7 2 1, ballot 3 7 3 1]"
  let ?ss = "[candidate 5 [ballot 1 5 1 1], ?c]"
  have d: "distinct (map submission_id ?ss)" by (simp add: candidate_def)
  have c: "?c \<in> set ?ss" by simp
  have m: "sum_list (map (\<lambda>s. firstChoiceVotes (votes s)) ?ss) < 2 * firstChoiceVotes (votes ?c)"
    by (simp add: candidate_def ballot_def firstChoiceVotes_def)
  from majority_wins_first_round [OF d c m] d show ?thesis by simp
qed

subsection \<open>When the tally returns \<open>null\<close>\<close>

text \<open>
  In the words of the specification: the total is the sum of the first-place counts
  across the remaining candidates, a candidate holds a strict majority when its count
  strictly exceeds \<open>total / 2\<close>, and a majority is reached in a round when some remaining
  candidate holds one. The counts are those of the ballots as they stand at the start
  of the round.
\<close>

definition first_place_total :: "tally_state \<Rightarrow> nat" where
  "first_place_total st =
     sum_list (map (storedCount (votesBySubmission st)) (remainingSubmissions st))"

definition has_strict_majority :: "tally_state \<Rightarrow> submission \<Rightarrow> bool" where
  "has_strict_majority st s \<longleftrightarrow>
     first_place_total st < 2 * storedCount (votesBySubmission st) s"

definition majority_reached :: "tally_state \<Rightarrow> bool" where
  "majority_reached st \<longleftrightarrow> list_ex (has_strict_majority st) (remainingSubmissions st)"

text \<open>The state after \<open>i\<close> rounds, one round further; and a state that ends the loop.\<close>

lemma loop_state_snoc:
  "loop_state i s0 = Inr st \<Longrightarrow> loop_state (Suc i) s0 = loop_state (Suc 0) st"
proof (induction i arbitrary: s0)
  case 0
  then show ?case by simp
next
  case (Suc i)
  show ?case
  proof (cases "loop_cond s0")
    case False
    with Suc.prems have "st = s0" by simp
    with False show ?thesis by simp
  next
    case True
    with Suc.prems obtain s1 where r: "runoff_round s0 = Inr s1" and l: "loop_state i s1 = Inr st"
      by (auto split: sum.splits)
    from Suc.IH [OF l] have "loop_state (Suc i) s1 = loop_state (Suc 0) st" .
    with True r show ?thesis by (simp del: loop_state.simps add: loop_state.simps(2) [of "Suc i" s0])
  qed
qed

lemma irv_loop_stop: "\<not> loop_cond st \<Longrightarrow> irv_loop st = Inr st"
  by (subst irv_loop.simps) simp

lemma loop_state_exit:
  "loop_state k s0 = Inr st \<Longrightarrow> \<not> loop_cond st \<Longrightarrow> irv_loop s0 = Inr st"
proof (induction k arbitrary: s0)
  case 0
  then have e: "st = s0" by simp
  with 0 have "\<not> loop_cond s0" by simp
  then have "irv_loop s0 = Inr s0" by (rule irv_loop_stop)
  with e show ?case by simp
next
  case (Suc k)
  show ?case
  proof (cases "loop_cond s0")
    case False
    with Suc.prems(1) have e: "st = s0" by simp
    from False have "irv_loop s0 = Inr s0" by (rule irv_loop_stop)
    with e show ?thesis by simp
  next
    case True
    with Suc.prems(1) obtain s1 where r: "runoff_round s0 = Inr s1" and l: "loop_state k s1 = Inr st"
      by (auto split: sum.splits)
    from Suc.IH [OF l Suc.prems(2)] True r show ?thesis by (simp add: irv_loop.simps [of s0])
  qed
qed

text \<open>On distinct ids a round names a winner exactly when a majority is reached, and
  otherwise takes out one submission.\<close>

lemma majority_reached_find:
  "majority_reached st \<longleftrightarrow>
     find (\<lambda>s. sum_list (map (storedCount (votesBySubmission st)) (remainingSubmissions st))
                 < 2 * storedCount (votesBySubmission st) s) (remainingSubmissions st) \<noteq> None"
  by (auto simp: majority_reached_def has_strict_majority_def first_place_total_def
      find_None_iff list_ex_iff)

lemma runoff_round_majority:
  assumes d: "distinct (map submission_id (remainingSubmissions st))"
      and k: "keys_present st"
      and c: "loop_cond st"
  shows "\<exists>st'. runoff_round st = Inr st'
      \<and> (majority_reached st \<and> winner st' \<noteq> None
         \<or> \<not> majority_reached st \<and> winner st' = None
           \<and> Suc (length (remainingSubmissions st')) = length (remainingSubmissions st))"
proof -
  let ?cnt = "storedCount (votesBySubmission st)"
  let ?rem = "remainingSubmissions st"
  from c have ne: "?rem \<noteq> []" and w: "winner st = None" by (simp_all add: loop_cond_def)
  note r = runoff_round_distinct [OF d k ne]
  show ?thesis
  proof (cases "find (\<lambda>s. sum_list (map ?cnt ?rem) < 2 * ?cnt s) ?rem")
    case (Some x)
    then have "majority_reached st" by (simp add: majority_reached_find)
    with r Some show ?thesis by simp
  next
    case None
    then have nm: "\<not> majority_reached st" by (simp add: majority_reached_find)
    from find_min_exists [OF ne, of ?cnt] obtain l where
      l: "find (\<lambda>s. ?cnt s = Min (?cnt ` set ?rem)) ?rem = Some l" and lin: "l \<in> set ?rem"
      by blast
    from r None l have e: "runoff_round st = Inr (eliminate st l)" by simp
    have "Suc (length (remove1 l ?rem)) = length ?rem"
      using lin ne by (simp add: length_remove1)
    with e w nm show ?thesis by (simp add: eliminate_def)
  qed
qed

text \<open>As long as no majority is reached, each round starts without a winner and with
  one submission fewer; and a tally that ends without a winner has reached no majority
  in any of its rounds.\<close>
lemma rounds_without_majority:
  assumes d: "distinct (map submission_id (remainingSubmissions s0))"
      and k: "keys_present s0"
      and w: "winner s0 = None"
      and nm: "\<forall>j<i. \<exists>st. loop_state j s0 = Inr st \<and> \<not> majority_reached st"
      and le: "i \<le> length (remainingSubmissions s0)"
  shows "\<exists>st. loop_state i s0 = Inr st \<and> winner st = None
           \<and> length (remainingSubmissions st) = length (remainingSubmissions s0) - i"
  using nm le
proof (induction i)
  case 0
  with w show ?case by simp
next
  case (Suc i)
  from Suc.prems have "\<forall>j<i. \<exists>st. loop_state j s0 = Inr st \<and> \<not> majority_reached st"
    and "i \<le> length (remainingSubmissions s0)"
    by simp_all
  from Suc.IH [OF this] obtain st where st: "loop_state i s0 = Inr st"
    and wst: "winner st = None"
    and len: "length (remainingSubmissions st) = length (remainingSubmissions s0) - i"
    by blast
  from Suc.prems(2) len have "remainingSubmissions st \<noteq> []" by auto
  with wst have c: "loop_cond st" by (simp add: loop_cond_def)
  from loop_state_inv [OF st k d]
  have kst: "keys_present st" and dst: "distinct (map submission_id (remainingSubmissions st))"
    by simp_all
  from Suc.prems(1) obtain st2 where "loop_state i s0 = Inr st2" "\<not> majority_reached st2"
    by blast
  with st have nmst: "\<not> majority_reached st" by simp
  from runoff_round_majority [OF dst kst c] nmst obtain st' where
    r: "runoff_round st = Inr st'" and w': "winner st' = None"
    and len': "Suc (length (remainingSubmissions st')) = length (remainingSubmissions st)"
    by blast
  have "loop_state (Suc i) s0 = loop_state (Suc 0) st" using st by (rule loop_state_snoc)
  also have "\<dots> = Inr st'" using c r by simp
  finally have "loop_state (Suc i) s0 = Inr st'" .
  moreover from len len' have "length (remainingSubmissions st')
      = length (remainingSubmissions s0) - Suc i"
    by simp
  ultimately show ?case using w' by blast
qed

lemma null_rounds:
  assumes d: "distinct (map submission_id (remainingSubmissions s0))"
      and k: "keys_present s0"
      and w: "winner s0 = None"
      and fin: "irv_loop s0 = Inr stf"
      and wf: "winner stf = None"
  shows "i < length (remainingSubmissions s0) \<Longrightarrow>
         \<forall>j\<le>i. \<exists>st. loop_state j s0 = Inr st \<and> \<not> majority_reached st"
proof (induction i)
  case 0
  have "\<not> majority_reached s0"
  proof
    assume m: "majority_reached s0"
    from 0 w have c: "loop_cond s0" by (auto simp: loop_cond_def)
    from runoff_round_majority [OF d k c] m obtain st' where
      r: "runoff_round s0 = Inr st'" and w': "winner st' \<noteq> None"
      by blast
    then have "\<not> loop_cond st'" by (simp add: loop_cond_def)
    with c r have "irv_loop s0 = Inr st'"
      by (simp add: irv_loop.simps [of s0] irv_loop.simps [of st'])
    with fin wf w' show False by simp
  qed
  then show ?case by simp
next
  case (Suc i)
  then have IH: "\<forall>j\<le>i. \<exists>st. loop_state j s0 = Inr st \<and> \<not> majority_reached st" by simp
  then have "\<forall>j<Suc i. \<exists>st. loop_state j s0 = Inr st \<and> \<not> majority_reached st"
    by (simp add: less_Suc_eq_le)
  from rounds_without_majority [OF d k w this] Suc.prems
  obtain st where st: "loop_state (Suc i) s0 = Inr st" and wst: "winner st = None"
    and len: "length (remainingSubmissions st) = length (remainingSubmissions s0) - Suc i"
    by auto
  from Suc.prems len have "remainingSubmissions st \<noteq> []" by auto
  with wst have c: "loop_cond st" by (simp add: loop_cond_def)
  from loop_state_inv [OF st k d]
  have kst: "keys_present st" and dst: "distinct (map submission_id (remainingSubmissions st))"
    by simp_all
  have "\<not> majority_reached st"
  proof
    assume m: "majority_reached st"
    from runoff_round_majority [OF dst kst c] m obtain st' where
      r: "runoff_round st = Inr st'" and w': "winner st' \<noteq> None"
      by blast
    then have nc: "\<not> loop_cond st'" by (simp add: loop_cond_def)
    have "loop_state (Suc (Suc i)) s0 = loop_state (Suc 0) st" using st by (rule loop_state_snoc)
    also have "\<dots> = Inr st'" using c r by simp
    finally have "irv_loop s0 = Inr st'" using nc by (rule loop_state_exit)
    with fin wf w' show False by simp
  qed
  with st have "\<exists>st. loop_state (Suc i) s0 = Inr st \<and> \<not> majority_reached st" by blast
  with IH show ?case by (auto simp: le_Suc_eq)
qed

text \<open>
  Claim C2. For submissions with distinct ids the tally returns \<open>null\<close> if and only if
  the list is empty or no majority is ever reached: at the start of each of its
  \<open>length candidates\<close> rounds no remaining candidate's first-place count strictly exceeds
  half of the total. When it returns \<open>null\<close> every candidate has been eliminated, one
  per round: round \<open>i\<close> starts without a winner and with \<open>length candidates - i\<close>
  candidates remaining, down to none. In particular a single candidate without
  first-place ballots gives \<open>null\<close>, not that candidate.
\<close>
theorem tally_null_iff:
  assumes d: "distinct (map submission_id candidates)"
  shows "((\<exists>store. calculateInstantRunoffWinner candidates = Inr (None, store)) \<longleftrightarrow>
            candidates = [] \<or>
            (\<forall>i < length candidates. \<exists>st.
                loop_state i (initial_state candidates) = Inr st \<and> \<not> majority_reached st))
       \<and> ((\<exists>store. calculateInstantRunoffWinner candidates = Inr (None, store)) \<longrightarrow>
            (\<forall>i \<le> length candidates. \<exists>st.
                loop_state i (initial_state candidates) = Inr st \<and> winner st = None
                \<and> length (remainingSubmissions st) = length candidates - i))
       \<and> (\<forall>s. firstChoiceVotes (votes s) = 0 \<longrightarrow>
            (\<exists>store. calculateInstantRunoffWinner [s] = Inr (None, store)))"
proof -
  let ?i = "initial_state candidates"
  let ?null = "\<exists>store. calculateInstantRunoffWinner candidates = Inr (None, store)"
  let ?never = "\<forall>i < length candidates. \<exists>st.
      loop_state i ?i = Inr st \<and> \<not> majority_reached st"
  have w0: "winner ?i = None" and rem: "remainingSubmissions ?i = candidates"
    by (simp_all add: initial_state_def)
  have d0: "distinct (map submission_id (remainingSubmissions ?i))" using d by (simp add: rem)
  note k0 = initial_keys_present [of candidates]
  \<comment> \<open>no majority in any round: the rounds eliminate one by one, down to nothing\<close>
  have down: "\<exists>st. loop_state i ?i = Inr st \<and> winner st = None
        \<and> length (remainingSubmissions st) = length candidates - i"
    if "?never" and "i \<le> length candidates" for i
  proof -
    from that have "\<forall>j<i. \<exists>st. loop_state j ?i = Inr st \<and> \<not> majority_reached st" by simp
    moreover from that have "i \<le> length (remainingSubmissions ?i)" by (simp add: rem)
    ultimately show ?thesis
      using rounds_without_majority [OF d0 k0 w0, of i] by (simp add: rem)
  qed
  have never_null: "?null" if n: "?never" and ne: "candidates \<noteq> []"
  proof -
    from down [OF n le_refl] obtain st where st: "loop_state (length candidates) ?i = Inr st"
      and wst: "winner st = None" and "length (remainingSubmissions st) = 0"
      by auto
    then have e: "remainingSubmissions st = []" by simp
    then have "\<not> loop_cond st" by (simp add: loop_cond_def)
    with st have "irv_loop ?i = Inr st" by (rule loop_state_exit)
    with ne wst e show ?thesis
      by (simp add: calculateInstantRunoffWinner_def final_result_def)
  qed
  have null_never: "?never" if n: "?null" and ne: "candidates \<noteq> []"
  proof -
    from irv_loop_total [OF k0] obtain stf where fin: "irv_loop ?i = Inr stf" ..
    with n ne have "final_result stf = None"
      by (simp add: calculateInstantRunoffWinner_def)
    then have wf: "winner stf = None"
      by (cases "winner stf") (simp_all add: final_result_def)
    show ?thesis
    proof (intro allI impI)
      fix i assume "i < length candidates"
      then have "i < length (remainingSubmissions ?i)" by (simp add: rem)
      from null_rounds [OF d0 k0 w0 fin wf this]
      show "\<exists>st. loop_state i ?i = Inr st \<and> \<not> majority_reached st" by simp
    qed
  qed
  have empty_null: "?null" if "candidates = []"
    using that by (simp add: calculateInstantRunoffWinner_def)
  have iff: "?null \<longleftrightarrow> candidates = [] \<or> ?never"
  proof
    assume n: ?null
    show "candidates = [] \<or> ?never"
    proof (cases "candidates = []")
      case True
      then show ?thesis ..
    next
      case False
      from null_never [OF n False] show ?thesis ..
    qed
  next
    assume "candidates = [] \<or> ?never"
    then show ?null
    proof
      assume "candidates = []"
      then show ?null by (rule empty_null)
    next
      assume n: ?never
      show ?null
      proof (cases "candidates = []")
        case True
        then show ?thesis by (rule empty_null)
      next
        case False
        from never_null [OF n False] show ?thesis .
      qed
    qed
  qed
  have all: "?null \<longrightarrow> (\<forall>i \<le> length candidates. \<exists>st.
      loop_state i ?i = Inr st \<and> winner st = None
      \<and> length (remainingSubmissions st) = length candidates - i)"
  proof (intro impI allI)
    fix i
    assume n: ?null and i: "i \<le> length candidates"
    have nv: ?never
    proof (cases "candidates = []")
      case True
      then show ?thesis by simp
    next
      case False
      from null_never [OF n False] show ?thesis .
    qed
    from down [OF nv i]
    show "\<exists>st. loop_state i ?i = Inr st \<and> winner st = None
      \<and> length (remainingSubmissions st) = length candidates - i" .
  qed
  have single: "\<forall>s. firstChoiceVotes (votes s) = 0 \<longrightarrow>
      (\<exists>store. calculateInstantRunoffWinner [s] = Inr (None, store))"
  proof (intro allI impI)
    fix s :: submission
    assume z: "firstChoiceVotes (votes s) = 0"
    let ?s = "initial_state [s]"
    have ds: "distinct (map submission_id (remainingSubmissions ?s))"
      by (simp add: initial_state_def)
    have ws: "winner ?s = None" by (simp add: initial_state_def)
    have "storedCount (votesBySubmission ?s) s = 0"
      using z by (simp add: initial_state_def storedCount_def votesBySubmission_reduce_def)
    then have nm: "\<not> majority_reached ?s"
      by (simp add: majority_reached_def has_strict_majority_def first_place_total_def
          initial_state_def)
    have "\<forall>j<1. \<exists>st. loop_state j ?s = Inr st \<and> \<not> majority_reached st"
      using nm by simp
    moreover have "1 \<le> length (remainingSubmissions ?s)" by (simp add: initial_state_def)
    ultimately obtain st where st: "loop_state 1 ?s = Inr st" and wst: "winner st = None"
      and "length (remainingSubmissions st) = length (remainingSubmissions ?s) - 1"
      using rounds_without_majority [OF ds initial_keys_present ws, of 1] by blast
    then have e: "remainingSubmissions st = []" by (simp add: initial_state_def)
    then have "\<not> loop_cond st" by (simp add: loop_cond_def)
    with st have "irv_loop ?s = Inr st" by (rule loop_state_exit)
    with wst e show "\<exists>store. calculateInstantRunoffWinner [s] = Inr (None, store)"
      by (simp add: calculateInstantRunoffWinner_def final_result_def)
  qed
  show ?thesis by (intro conjI iff all single)
qed

text \<open>
  A single candidate with no ballots: no majority is reached, its own round eliminates
  it, and the result is \<open>null\<close>. A single candidate with one first-place ballot: a
  majority is reached in the first round and the candidate is returned.
\<close>

theorem tally_null_iff_witness:
  "distinct (map submission_id [candidate 1 []])
   \<and> \<not> majority_reached (initial_state [candidate 1 []])
   \<and> (\<exists>store. calculateInstantRunoffWinner [candidate 1 []] = Inr (None, store))
   \<and> majority_reached (initial_state [candidate 1 [ballot 1 1 1 1]])
   \<and> calculateInstantRunoffWinner [candidate 1 [ballot 1 1 1 1]]
       = Inr (Some (candidate 1 [ballot 1 1 1 1]),
              votesBySubmission_reduce [candidate 1 [ballot 1 1 1 1]])"
proof -
  have d: "distinct (map submission_id [candidate 1 []])" by simp
  have nm: "\<not> majority_reached (initial_state [candidate 1 []])"
    by (simp add: majority_reached_def has_strict_majority_def first_place_total_def
        initial_state_def storedCount_def votesBySubmission_reduce_def candidate_def
        firstChoiceVotes_def)
  then have "\<forall>i < length [candidate 1 []]. \<exists>st.
      loop_state i (initial_state [candidate 1 []]) = Inr st \<and> \<not> majority_reached st"
    by simp
  then have "[candidate 1 []] = [] \<or> (\<forall>i < length [candidate 1 []]. \<exists>st.
      loop_state i (initial_state [candidate 1 []]) = Inr st \<and> \<not> majority_reached st)" ..
  with tally_null_iff [OF d, THEN conjunct1]
  have null: "\<exists>store. calculateInstantRunoffWinner [candidate 1 []] = Inr (None, store)"
    by (rule iffD2)
  have m: "majority_reached (initial_state [candidate 1 [ballot 1 1 1 1]])"
    by (simp add: majority_reached_def has_strict_majority_def first_place_total_def
        initial_state_def storedCount_def votesBySubmission_reduce_def candidate_def
        ballot_def firstChoiceVotes_def)
  have w: "calculateInstantRunoffWinner [candidate 1 [ballot 1 1 1 1]]
       = Inr (Some (candidate 1 [ballot 1 1 1 1]),
              votesBySubmission_reduce [candidate 1 [ballot 1 1 1 1]])"
    by (simp add: tally_eval irv_loop.simps)
  from d nm null m w show ?thesis by (intro conjI)
qed

subsection \<open>Which submission a round eliminates\<close>

text \<open>
  Claim C4. Take a round of a tally over submissions with distinct ids that names no
  winner. The submission it removes from \<open>remainingSubmissions\<close> is the one at the least
  position \<open>i\<close>, in the order of the counting pass (the order of
  \<open>remainingSubmissions\<close>), whose first-place count equals the minimum count among the
  remaining submissions; no other submission is removed. So of two submissions tied at
  the minimum the earlier one goes.
\<close>

theorem elimination_takes_first_minimum:
  assumes d: "distinct (map submission_id candidates)"
      and reach: "loop_state n (initial_state candidates) = Inr st"
      and lc: "loop_cond st"
      and r: "runoff_round st = Inr st'"
      and nw: "winner st' = None"
  shows "\<exists>i < length (remainingSubmissions st).
           storedCount (votesBySubmission st) (remainingSubmissions st ! i)
             = Min (storedCount (votesBySubmission st) ` set (remainingSubmissions st))
         \<and> (\<forall>j < i. storedCount (votesBySubmission st) (remainingSubmissions st ! j)
               \<noteq> Min (storedCount (votesBySubmission st) ` set (remainingSubmissions st)))
         \<and> remainingSubmissions st' = remove1 (remainingSubmissions st ! i) (remainingSubmissions st)
         \<and> set (remainingSubmissions st') = set (remainingSubmissions st) - {remainingSubmissions st ! i}"
proof -
  let ?cnt = "storedCount (votesBySubmission st)"
  let ?rem = "remainingSubmissions st"
  have "distinct (map submission_id (remainingSubmissions (initial_state candidates)))"
    using d by (simp add: initial_state_def)
  from loop_state_inv [OF reach initial_keys_present this]
  have k: "keys_present st" and dr: "distinct (map submission_id ?rem)" by simp_all
  from lc have ne: "?rem \<noteq> []" by (simp add: loop_cond_def)
  note rr = runoff_round_distinct [OF dr k ne]
  have nomaj: "find (\<lambda>s. sum_list (map ?cnt ?rem) < 2 * ?cnt s) ?rem = None"
  proof (cases "find (\<lambda>s. sum_list (map ?cnt ?rem) < 2 * ?cnt s) ?rem")
    case None
    then show ?thesis .
  next
    case (Some w)
    with rr r have "st' = st\<lparr>winner := Some w\<rparr>" by simp
    with nw show ?thesis by simp
  qed
  from find_min_exists [OF ne, of ?cnt] obtain l where
    l: "find (\<lambda>s. ?cnt s = Min (?cnt ` set ?rem)) ?rem = Some l" and lin: "l \<in> set ?rem"
    by blast
  from rr nomaj l r have st': "st' = eliminate st l" by simp
  from l obtain i where i: "i < length ?rem" "?cnt (?rem ! i) = Min (?cnt ` set ?rem)"
      "l = ?rem ! i" "\<forall>j<i. ?cnt (?rem ! j) \<noteq> Min (?cnt ` set ?rem)"
    unfolding find_Some_iff by blast
  have rem': "remainingSubmissions st' = remove1 (?rem ! i) ?rem"
    using st' i(3) by (simp add: eliminate_def)
  have "distinct ?rem" using dr by (simp add: distinct_map)
  then have "set (remove1 (?rem ! i) ?rem) = set ?rem - {?rem ! i}"
    by (rule set_remove1_eq)
  with rem' have set': "set (remainingSubmissions st') = set ?rem - {?rem ! i}" by simp
  from i(1,2,4) rem' set' show ?thesis by blast
qed

text \<open>Two candidates tied at one first-place vote each: the first is eliminated.\<close>

theorem elimination_takes_first_minimum_witness:
  "distinct (map submission_id [candidate 1 [ballot 1 1 1 1], candidate 2 [ballot 2 2 2 1]])
   \<and> runoff_round (initial_state [candidate 1 [ballot 1 1 1 1], candidate 2 [ballot 2 2 2 1]])
       = Inr ((initial_state [candidate 1 [ballot 1 1 1 1], candidate 2 [ballot 2 2 2 1]])
               \<lparr>remainingSubmissions := [candidate 2 [ballot 2 2 2 1]]\<rparr>)
   \<and> (\<exists>i < length [candidate 1 [ballot 1 1 1 1], candidate 2 [ballot 2 2 2 1]].
         [candidate 2 [ballot 2 2 2 1]]
           = remove1 ([candidate 1 [ballot 1 1 1 1], candidate 2 [ballot 2 2 2 1]] ! i)
               [candidate 1 [ballot 1 1 1 1], candidate 2 [ballot 2 2 2 1]])"
proof -
  let ?a = "candidate 1 [ballot 1 1 1 1]"
  let ?b = "candidate 2 [ballot 2 2 2 1]"
  let ?i = "initial_state [?a, ?b]"
  let ?st' = "?i\<lparr>remainingSubmissions := [?b]\<rparr>"
  have d: "distinct (map submission_id [?a, ?b])" by (simp add: candidate_def)
  have reach: "loop_state 0 ?i = Inr ?i" by simp
  have lc: "loop_cond ?i" by (simp add: loop_cond_def initial_state_def)
  have r: "runoff_round ?i = Inr ?st'"
    by (simp add: tally_eval fun_eq_iff)
  have nw: "winner ?st' = None" by (simp add: initial_state_def)
  have rem: "remainingSubmissions ?i = [?a, ?b]" "remainingSubmissions ?st' = [?b]"
    by (simp_all add: initial_state_def)
  from elimination_takes_first_minimum [OF d reach lc r nw]
  obtain i where "i < length (remainingSubmissions ?i)"
    "remainingSubmissions ?st' = remove1 (remainingSubmissions ?i ! i) (remainingSubmissions ?i)"
    by blast
  then have "i < length [?a, ?b] \<and> [?b] = remove1 ([?a, ?b] ! i) [?a, ?b]"
    unfolding rem by (rule conjI)
  then have "\<exists>i < length [?a, ?b]. [?b] = remove1 ([?a, ?b] ! i) [?a, ?b]" by blast
  with d r show ?thesis by (intro conjI)
qed

subsection \<open>The ballots after the call\<close>

text \<open>
  \<open>lowered_by n v v'\<close>: ballot \<open>v'\<close> is ballot \<open>v\<close> with its rank lowered by at most \<open>n\<close> and
  every other field as it was. \<open>store_lowered_by\<close> says so of every ballot of every array,
  position by position, with no array added, removed or changed in length.
  \<open>submissions_after\<close> is the caller's list of submission objects as a call leaves it:
  each \<open>votes\<close> array holds what the tally left under the submission's id (ids distinct).
\<close>

definition lowered_by :: "nat \<Rightarrow> vote \<Rightarrow> vote \<Rightarrow> bool" where
  "lowered_by n v v' \<longleftrightarrow>
     vote_id v' = vote_id v \<and> vote_submission_id v' = vote_submission_id v \<and>
     vote_user_id v' = vote_user_id v \<and> vote_created_at v' = vote_created_at v \<and>
     rank v' \<le> rank v \<and> rank v \<le> rank v' + int n"

definition submissions_after :: "submission list \<Rightarrow> votes_store \<Rightarrow> submission list" where
  "submissions_after candidates store =
     map (\<lambda>s. case store (submission_id s) of Some vs \<Rightarrow> s\<lparr>votes := vs\<rparr> | None \<Rightarrow> s)
       candidates"

definition store_lowered_by :: "nat \<Rightarrow> votes_store \<Rightarrow> votes_store \<Rightarrow> bool" where
  "store_lowered_by n store store' \<longleftrightarrow>
     (\<forall>k. rel_option (list_all2 (lowered_by n)) (store k) (store' k))"

lemma lowered_by_refl: "lowered_by 0 v v"
  by (simp add: lowered_by_def)

lemma lowered_by_rerank: "lowered_by (Suc 0) v (rerank t v)"
  by (cases t) (simp_all add: lowered_by_def rerank_def)

lemma lowered_by_trans: "lowered_by a u v \<Longrightarrow> lowered_by b v w \<Longrightarrow> lowered_by (a + b) u w"
  by (simp add: lowered_by_def)

lemma store_lowered_by_refl: "store_lowered_by 0 store store"
  by (simp add: store_lowered_by_def option.rel_refl list.rel_refl lowered_by_refl)

lemma store_lowered_by_rerankAll: "store_lowered_by (Suc 0) store (rerankAll t store)"
proof -
  have "list_all2 (lowered_by (Suc 0)) vs (map (rerank t) vs)" for vs
    by (simp add: list_all2_map2 list_all2_same lowered_by_rerank)
  then show ?thesis
    by (simp add: store_lowered_by_def rerankAll_def option.rel_map option.rel_refl)
qed

lemma store_lowered_by_trans:
  assumes "store_lowered_by a s1 s2" and "store_lowered_by b s2 s3"
  shows "store_lowered_by (a + b) s1 s3"
proof -
  have "rel_option (list_all2 (lowered_by (a + b))) (s1 k) (s3 k)" for k
  proof -
    from assms have 1: "rel_option (list_all2 (lowered_by a)) (s1 k) (s2 k)"
      and 2: "rel_option (list_all2 (lowered_by b)) (s2 k) (s3 k)"
      by (simp_all add: store_lowered_by_def)
    have step: "list_all2 (lowered_by (a + b)) xs zs"
      if "list_all2 (lowered_by a) xs ys" "list_all2 (lowered_by b) ys zs" for xs ys zs
      using that by (rule list_all2_trans [rotated]) (rule lowered_by_trans)
    from 1 2 show ?thesis
      by (cases "s1 k"; cases "s2 k"; cases "s3 k") (auto intro: step)
  qed
  then show ?thesis by (simp add: store_lowered_by_def)
qed

lemma store_lowered_by_mono:
  "store_lowered_by a s1 s2 \<Longrightarrow> a \<le> b \<Longrightarrow> store_lowered_by b s1 s2"
proof -
  assume l: "store_lowered_by a s1 s2" and ab: "a \<le> b"
  have "lowered_by a v v' \<Longrightarrow> lowered_by b v v'" for v v'
    using ab by (simp add: lowered_by_def)
  then have "list_all2 (lowered_by a) xs ys \<Longrightarrow> list_all2 (lowered_by b) xs ys" for xs ys
    by (auto elim: list_all2_mono)
  then have "rel_option (list_all2 (lowered_by a)) x y \<Longrightarrow>
      rel_option (list_all2 (lowered_by b)) x y" for x y
    by (cases x; cases y) simp_all
  with l show ?thesis by (simp add: store_lowered_by_def)
qed

lemma runoff_round_lowers:
  assumes "runoff_round st = Inr st'"
  shows "store_lowered_by (Suc 0) (votesBySubmission st) (votesBySubmission st')"
  using assms
proof (cases rule: runoff_round_cases)
  case (win w)
  then show ?thesis
    using store_lowered_by_mono [OF store_lowered_by_refl, of "Suc 0"] by simp
next
  case (elim P t)
  then show ?thesis by (simp add: store_lowered_by_rerankAll)
qed

lemma irv_loop_lowers:
  "irv_loop st = Inr st' \<Longrightarrow>
   store_lowered_by (loop_iterations st) (votesBySubmission st) (votesBySubmission st')"
proof (induction st rule: irv_loop.induct)
  case (1 st)
  show ?case
  proof (cases "loop_cond st")
    case False
    with "1.prems" have "st' = st" by (simp add: irv_loop.simps [of st])
    moreover from False have "loop_iterations st = 0" by (simp add: loop_iterations.simps [of st])
    ultimately show ?thesis by (simp add: store_lowered_by_refl)
  next
    case True
    with "1.prems" obtain st1 where r: "runoff_round st = Inr st1" and l: "irv_loop st1 = Inr st'"
      by (auto simp: irv_loop.simps [of st] split: sum.splits)
    from store_lowered_by_trans [OF runoff_round_lowers [OF r] "1.IH" [OF True r l]]
    show ?thesis using True r by (simp add: loop_iterations.simps [of st])
  qed
qed

text \<open>
  Claim C5, amended. The tally is a function of the values of its input, and it does
  mutate the ballots it is given, in one way only: it lowers ranks. For every input it
  returns, and each ballot it leaves is the ballot it received with a rank lowered by
  at most one per round (so by at most the number of submissions) and all other fields
  unchanged; no ballot is added or removed. No ballot changes at all when the list is
  empty or when the first round names a winner.
\<close>

theorem tally_lowers_ranks_in_place:
  "\<exists>w store. calculateInstantRunoffWinner candidates = Inr (w, store)
     \<and> store_lowered_by (length candidates) (votesBySubmission_reduce candidates) store
     \<and> (candidates = [] \<longrightarrow> store = votesBySubmission_reduce candidates)
     \<and> (\<forall>st'. runoff_round (initial_state candidates) = Inr st' \<and> winner st' \<noteq> None
           \<longrightarrow> store = votesBySubmission_reduce candidates)"
proof (cases "candidates = []")
  case True
  then show ?thesis
    by (simp add: calculateInstantRunoffWinner_def store_lowered_by_refl)
next
  case False
  let ?i = "initial_state candidates"
  from irv_loop_total [OF initial_keys_present] obtain st where st: "irv_loop ?i = Inr st" ..
  have res: "calculateInstantRunoffWinner candidates = Inr (final_result st, votesBySubmission st)"
    using False st by (simp add: calculateInstantRunoffWinner_def)
  have "store_lowered_by (loop_iterations ?i) (votesBySubmission ?i) (votesBySubmission st)"
    using st by (rule irv_loop_lowers)
  moreover have "loop_iterations ?i \<le> length candidates"
    using loop_iterations_bound [of ?i] by (simp add: initial_state_def)
  ultimately have low: "store_lowered_by (length candidates)
      (votesBySubmission_reduce candidates) (votesBySubmission st)"
    using store_lowered_by_mono by (simp add: initial_state_def)
  have first: "votesBySubmission st = votesBySubmission_reduce candidates"
    if r: "runoff_round ?i = Inr st'" and w: "winner st' \<noteq> None" for st'
  proof -
    from r have "votesBySubmission st' = votesBySubmission ?i"
    proof (cases rule: runoff_round_cases)
      case (win w)
      then show ?thesis by simp
    next
      case (elim P t)
      with w show ?thesis by (simp add: initial_state_def)
    qed
    moreover have "loop_cond ?i" using False by (simp add: loop_cond_def initial_state_def)
    moreover from w have "\<not> loop_cond st'" by (simp add: loop_cond_def)
    ultimately have "st = st'" using st r
      by (simp add: irv_loop.simps [of ?i] irv_loop.simps [of st'])
    with \<open>votesBySubmission st' = votesBySubmission ?i\<close> show ?thesis
      by (simp add: initial_state_def)
  qed
  from res low first False show ?thesis by auto
qed

text \<open>A run with an elimination round.\<close>

theorem tally_lowers_ranks_in_place_witness:
  "\<exists>w store. calculateInstantRunoffWinner
        [candidate 1 [ballot 1 1 1 2, ballot 2 1 2 2], candidate 2 [ballot 3 2 1 2]]
      = Inr (w, store)
     \<and> store_lowered_by
          (length [candidate 1 [ballot 1 1 1 2, ballot 2 1 2 2], candidate 2 [ballot 3 2 1 2]])
          (votesBySubmission_reduce
            [candidate 1 [ballot 1 1 1 2, ballot 2 1 2 2], candidate 2 [ballot 3 2 1 2]])
          store"
  using tally_lowers_ranks_in_place
    [of "[candidate 1 [ballot 1 1 1 2, ballot 2 1 2 2], candidate 2 [ballot 3 2 1 2]]"]
  by blast

text \<open>
  Claim C5 as stated fails. Candidate 1 holds two ballots of rank 2 and candidate 2 one
  ballot of rank 2. The first round eliminates candidate 1 and lowers every rank to 1;
  the second names candidate 2. After the call the ranks of the caller's ballots are 1,
  not 2, and a second call on the same objects names candidate 1.
\<close>

theorem tally_mutates_ballots_counterexample:
  "calculateInstantRunoffWinner
     [candidate 1 [ballot 1 1 1 2, ballot 2 1 2 2], candidate 2 [ballot 3 2 1 2]]
     = Inr (Some (candidate 2 [ballot 3 2 1 2]),
            [1 \<mapsto> [ballot 1 1 1 1, ballot 2 1 2 1], 2 \<mapsto> [ballot 3 2 1 1]])
   \<and> votesBySubmission_reduce
       [candidate 1 [ballot 1 1 1 2, ballot 2 1 2 2], candidate 2 [ballot 3 2 1 2]]
     = [1 \<mapsto> [ballot 1 1 1 2, ballot 2 1 2 2], 2 \<mapsto> [ballot 3 2 1 2]]
   \<and> submissions_after
       [candidate 1 [ballot 1 1 1 2, ballot 2 1 2 2], candidate 2 [ballot 3 2 1 2]]
       [1 \<mapsto> [ballot 1 1 1 1, ballot 2 1 2 1], 2 \<mapsto> [ballot 3 2 1 1]]
     = [candidate 1 [ballot 1 1 1 1, ballot 2 1 2 1], candidate 2 [ballot 3 2 1 1]]
   \<and> calculateInstantRunoffWinner
       [candidate 1 [ballot 1 1 1 1, ballot 2 1 2 1], candidate 2 [ballot 3 2 1 1]]
     = Inr (Some (candidate 1 [ballot 1 1 1 1, ballot 2 1 2 1]),
            [1 \<mapsto> [ballot 1 1 1 1, ballot 2 1 2 1], 2 \<mapsto> [ballot 3 2 1 1]])"
proof (intro conjI)
  show "calculateInstantRunoffWinner
     [candidate 1 [ballot 1 1 1 2, ballot 2 1 2 2], candidate 2 [ballot 3 2 1 2]]
     = Inr (Some (candidate 2 [ballot 3 2 1 2]),
            [1 \<mapsto> [ballot 1 1 1 1, ballot 2 1 2 1], 2 \<mapsto> [ballot 3 2 1 1]])"
    by (simp add: tally_eval irv_loop.simps fun_eq_iff)
  show "votesBySubmission_reduce
       [candidate 1 [ballot 1 1 1 2, ballot 2 1 2 2], candidate 2 [ballot 3 2 1 2]]
     = [1 \<mapsto> [ballot 1 1 1 2, ballot 2 1 2 2], 2 \<mapsto> [ballot 3 2 1 2]]"
    by (simp add: votesBySubmission_reduce_def candidate_def)
  show "submissions_after
       [candidate 1 [ballot 1 1 1 2, ballot 2 1 2 2], candidate 2 [ballot 3 2 1 2]]
       [1 \<mapsto> [ballot 1 1 1 1, ballot 2 1 2 1], 2 \<mapsto> [ballot 3 2 1 1]]
     = [candidate 1 [ballot 1 1 1 1, ballot 2 1 2 1], candidate 2 [ballot 3 2 1 1]]"
    by (simp add: submissions_after_def candidate_def)
  show "calculateInstantRunoffWinner
       [candidate 1 [ballot 1 1 1 1, ballot 2 1 2 1], candidate 2 [ballot 3 2 1 1]]
     = Inr (Some (candidate 1 [ballot 1 1 1 1, ballot 2 1 2 1]),
            [1 \<mapsto> [ballot 1 1 1 1, ballot 2 1 2 1], 2 \<mapsto> [ballot 3 2 1 1]])"
    by (simp add: tally_eval irv_loop.simps fun_eq_iff)
qed

subsection \<open>Re-ranking after an elimination\<close>

text \<open>
  On distinct ids, a round that names no winner takes out one submission \<open>l\<close> and, when
  the id of \<open>l\<close> is not 0, lowers by one the rank of every ballot of every array (also
  those of submissions eliminated earlier) whose rank is above \<open>l\<close>'s first-place count,
  and leaves every other ballot as it is. When the id of \<open>l\<close> is 0 the truthiness test
  \<open>if (losingSubmissionId)\<close> fails and no ballot is touched.
\<close>

lemma elimination_round_reranks:
  assumes d: "distinct (map submission_id (remainingSubmissions st))"
      and k: "keys_present st"
      and lc: "loop_cond st"
      and r: "runoff_round st = Inr st'"
      and nw: "winner st' = None"
  shows "\<exists>l \<in> set (remainingSubmissions st).
           remainingSubmissions st' = remove1 l (remainingSubmissions st)
         \<and> votesBySubmission st' =
             (if submission_id l \<noteq> 0
              then (\<lambda>k. map_option
                          (map (\<lambda>v. if int (storedCount (votesBySubmission st) l) < rank v
                                     then v\<lparr>rank := rank v - 1\<rparr> else v))
                          (votesBySubmission st k))
              else votesBySubmission st)"
proof -
  let ?cnt = "storedCount (votesBySubmission st)"
  let ?rem = "remainingSubmissions st"
  from lc have ne: "?rem \<noteq> []" by (simp add: loop_cond_def)
  note rr = runoff_round_distinct [OF d k ne]
  have nomaj: "find (\<lambda>s. sum_list (map ?cnt ?rem) < 2 * ?cnt s) ?rem = None"
  proof (cases "find (\<lambda>s. sum_list (map ?cnt ?rem) < 2 * ?cnt s) ?rem")
    case None
    then show ?thesis .
  next
    case (Some w)
    with rr r have "st' = st\<lparr>winner := Some w\<rparr>" by simp
    with nw show ?thesis by simp
  qed
  from find_min_exists [OF ne, of ?cnt] obtain l where
    l: "find (\<lambda>s. ?cnt s = Min (?cnt ` set ?rem)) ?rem = Some l" and lin: "l \<in> set ?rem"
    by blast
  from rr nomaj l r have st': "st' = eliminate st l" by simp
  have "rerank (Some (?cnt l))
      = (\<lambda>v. if int (?cnt l) < rank v then v\<lparr>rank := rank v - 1\<rparr> else v)"
    by (simp add: rerank_def fun_eq_iff)
  then have "rerankAll (Some (?cnt l)) (votesBySubmission st)
      = (\<lambda>k. map_option (map (\<lambda>v. if int (?cnt l) < rank v then v\<lparr>rank := rank v - 1\<rparr> else v))
                (votesBySubmission st k))"
    by (simp add: rerankAll_def)
  with st' have "remainingSubmissions st' = remove1 l ?rem
     \<and> votesBySubmission st' =
             (if submission_id l \<noteq> 0
              then (\<lambda>k. map_option
                          (map (\<lambda>v. if int (?cnt l) < rank v then v\<lparr>rank := rank v - 1\<rparr> else v))
                          (votesBySubmission st k))
              else votesBySubmission st)"
    by (simp add: eliminate_def)
  with lin show ?thesis by blast
qed

text \<open>
  Claim C3 says that every elimination round lowers the ranks above the eliminated
  candidate's count. The code does not when the eliminated submission has id 0:
  below, candidate 0 is eliminated with count 0, the ballot of rank 2 keeps its rank,
  and the tally ends with \<open>null\<close>; with id 2 in place of 0 the ballot is lowered to rank
  1 and candidate 1 wins.
\<close>

theorem rerank_skipped_for_id_zero:
  "runoff_round (initial_state [candidate 0 [], candidate 1 [ballot 1 1 1 2]])
     = Inr ((initial_state [candidate 0 [], candidate 1 [ballot 1 1 1 2]])
             \<lparr>remainingSubmissions := [candidate 1 [ballot 1 1 1 2]]\<rparr>)
   \<and> storedCount (votesBySubmission_reduce [candidate 0 [], candidate 1 [ballot 1 1 1 2]])
       (candidate 0 []) = 0
   \<and> map_sum id fst (calculateInstantRunoffWinner [candidate 0 [], candidate 1 [ballot 1 1 1 2]])
     = Inr None
   \<and> map_sum id fst (calculateInstantRunoffWinner [candidate 2 [], candidate 1 [ballot 1 1 1 2]])
     = Inr (Some (candidate 1 [ballot 1 1 1 2]))"
  by (simp add: tally_eval irv_loop.simps storedCount_def)


section \<open>Properties of the handlers\<close>

text \<open>A user, a film, a backend that answers every request without error, and states
  and a store to run the handlers on.\<close>

definition example_user :: users_row where
  "example_user = \<lparr>users_user_id = 3, name = ''ana'', email = None, users_created_at = ''''\<rparr>"

definition example_movie :: MovieResult where
  "example_movie =
     \<lparr>movie_result_id = 603, title = ''The Matrix'', release_date = ''1999-03-31'',
      overview = '''', poster_path = None, runtime = None\<rparr>"

definition example_backend :: backend where
  "example_backend =
     \<lparr>now_ms = 1674000000001, now_iso = ''2023-01-18T00:00:00.001Z'', day_of_week = 3,
      select_night_error = None, insert_night_error = None, insert_submission_error = None,
      delete_votes_error = None, insert_votes_error = None,
      next_submission_id = 9, next_vote_id = 40\<rparr>"

definition example_state :: "submission list \<Rightarrow> app_state" where
  "example_state loaded =
     \<lparr>currentPhase = submission_phase, submissions = loaded, movieTitle = ''The Matrix'',
      currentUser = Some example_user, error = None, isAdminMode = False, searchResults = [],
      selectedMovie = Some example_movie, userVotes = loaded\<rparr>"

definition example_database :: database where
  "example_database =
     \<lparr>movie_nights = [], submissions_table = [],
      votes_table = [ballot 1 5 3 1, ballot 2 5 4 1]\<rparr>"

subsection \<open>The phase\<close>

text \<open>
  Claim C9. Outside admin mode the phase the application sets depends on the day of the
  week only: day 4 (Thursday) gives \<open>winner\<close>; every day from 2 on other than 4, that is
  2, 3, 5 and 6 (Tuesday, Wednesday, Friday, Saturday), gives \<open>voting\<close>; days 0 and 1
  (Sunday, Monday) give \<open>submission\<close>. Nothing else of the state changes and the state
  before has no influence on the phase.
\<close>

theorem phase_by_day_of_week:
  assumes "\<not> isAdminMode st"
  shows "(day_of_week be = 4 \<longrightarrow> currentPhase (phase_effect be st) = winner_phase)
       \<and> (2 \<le> day_of_week be \<and> day_of_week be \<noteq> 4 \<longrightarrow>
            currentPhase (phase_effect be st) = voting)
       \<and> (day_of_week be \<in> {2, 3, 5, 6} \<longrightarrow> currentPhase (phase_effect be st) = voting)
       \<and> (day_of_week be \<in> {0, 1} \<longrightarrow> currentPhase (phase_effect be st) = submission_phase)
       \<and> phase_effect be st = st\<lparr>currentPhase := currentPhase (phase_effect be st)\<rparr>
       \<and> (\<forall>st'. \<not> isAdminMode st' \<longrightarrow>
             currentPhase (phase_effect be st') = currentPhase (phase_effect be st))"
  using assms by (auto simp: phase_effect_def determineCurrentPhase_def)

text \<open>Thursday, Friday and Monday.\<close>

theorem phase_by_day_of_week_witness:
  "currentPhase (phase_effect (example_backend\<lparr>day_of_week := 4\<rparr>) (example_state [])) = winner_phase
   \<and> currentPhase (phase_effect (example_backend\<lparr>day_of_week := 5\<rparr>) (example_state [])) = voting
   \<and> currentPhase (phase_effect (example_backend\<lparr>day_of_week := 1\<rparr>) (example_state []))
       = submission_phase"
proof -
  have a: "\<not> isAdminMode (example_state [])" by (simp add: example_state_def)
  from phase_by_day_of_week [OF a, of "example_backend\<lparr>day_of_week := 4\<rparr>"]
       phase_by_day_of_week [OF a, of "example_backend\<lparr>day_of_week := 5\<rparr>"]
       phase_by_day_of_week [OF a, of "example_backend\<lparr>day_of_week := 1\<rparr>"]
  show ?thesis by simp
qed

subsection \<open>The submission quota\<close>

text \<open>The number of submissions a user owns in a night, in the store.\<close>

definition owned_in_store :: "int \<Rightarrow> int \<Rightarrow> database \<Rightarrow> nat" where
  "owned_in_store nightId uid db =
     length (filter (\<lambda>r. row_night_id r = nightId \<and> row_user_id r = uid) (submissions_table db))"

text \<open>What the handler does, in terms of the list it reads.\<close>

lemma handleSubmitMovie_refuses:
  assumes "currentUser st = Some u" and "selectedMovie st = Some m"
      and "MAX_SUBMISSIONS \<le> length (filter (\<lambda>s. user_id s = users_user_id u) (submissions st))"
  shows "handleSubmitMovie be (db, st) = (db, st\<lparr>error := Some quota_message\<rparr>)"
  using assms by (simp add: handleSubmitMovie_def)

lemma handleSubmitMovie_inserts:
  assumes "currentUser st = Some u" and "selectedMovie st = Some m"
      and "length (filter (\<lambda>s. user_id s = users_user_id u) (submissions st)) < MAX_SUBMISSIONS"
      and "select_night_error be = None" and "insert_night_error be = None"
      and "insert_submission_error be = None"
  shows "\<exists>db' st'. handleSubmitMovie be (db, st) = (db', st')
           \<and> submissions_table db' = submissions_table db @
                [\<lparr>row_submission_id = next_submission_id be,
                  row_night_id = getCurrentMovieNight (now_ms be),
                  row_user_id = users_user_id u,
                  row_movie_id = movie_result_id m,
                  row_created_at = now_iso be\<rparr>]
           \<and> votes_table db' = votes_table db
           \<and> error st' = error st"
  using assms by (simp add: handleSubmitMovie_def ensureMovieNightExists_def Let_def)

text \<open>
  Claim C8, amended. The quota is checked on \<open>submissions\<close>, the list of the night's
  submissions that the application has loaded, not on the store. Let a user be logged
  in and a film selected. If the loaded list shows \<open>MAX_SUBMISSIONS\<close> (2) or more
  submissions of this user, the handler reports the quota message and changes nothing
  in the store. If it shows fewer and the store answers its requests without error, the
  handler adds to the \<open>submissions\<close> table one row, of this user and the current night,
  that refers to the selected film's id; the user then owns one more in the store, and
  no error is set.
\<close>

theorem submit_movie_quota:
  assumes u: "currentUser st = Some u"
      and m: "selectedMovie st = Some m"
  shows "(MAX_SUBMISSIONS \<le> length (filter (\<lambda>s. user_id s = users_user_id u) (submissions st))
            \<longrightarrow> handleSubmitMovie be (db, st) = (db, st\<lparr>error := Some quota_message\<rparr>))
       \<and> (length (filter (\<lambda>s. user_id s = users_user_id u) (submissions st)) < MAX_SUBMISSIONS
            \<and> select_night_error be = None \<and> insert_night_error be = None
            \<and> insert_submission_error be = None
            \<longrightarrow> (\<exists>db' st'. handleSubmitMovie be (db, st) = (db', st')
                  \<and> submissions_table db' = submissions_table db @
                       [\<lparr>row_submission_id = next_submission_id be,
                         row_night_id = getCurrentMovieNight (now_ms be),
                         row_user_id = users_user_id u,
                         row_movie_id = movie_result_id m,
                         row_created_at = now_iso be\<rparr>]
                  \<and> owned_in_store (getCurrentMovieNight (now_ms be)) (users_user_id u) db'
                      = Suc (owned_in_store (getCurrentMovieNight (now_ms be)) (users_user_id u) db)
                  \<and> error st' = error st))"
proof (intro conjI impI)
  assume "MAX_SUBMISSIONS \<le> length (filter (\<lambda>s. user_id s = users_user_id u) (submissions st))"
  with u m show "handleSubmitMovie be (db, st) = (db, st\<lparr>error := Some quota_message\<rparr>)"
    by (rule handleSubmitMovie_refuses)
next
  let ?n = "getCurrentMovieNight (now_ms be)"
  assume a: "length (filter (\<lambda>s. user_id s = users_user_id u) (submissions st)) < MAX_SUBMISSIONS
            \<and> select_night_error be = None \<and> insert_night_error be = None
            \<and> insert_submission_error be = None"
  then have "length (filter (\<lambda>s. user_id s = users_user_id u) (submissions st)) < MAX_SUBMISSIONS"
    and "select_night_error be = None" and "insert_night_error be = None"
    and "insert_submission_error be = None"
    by simp_all
  then have "\<exists>db' st'. handleSubmitMovie be (db, st) = (db', st')
           \<and> submissions_table db' = submissions_table db @
                [\<lparr>row_submission_id = next_submission_id be,
                  row_night_id = getCurrentMovieNight (now_ms be),
                  row_user_id = users_user_id u,
                  row_movie_id = movie_result_id m,
                  row_created_at = now_iso be\<rparr>]
           \<and> votes_table db' = votes_table db
           \<and> error st' = error st"
    by (rule handleSubmitMovie_inserts [OF u m])
  then obtain db' st' where run: "handleSubmitMovie be (db, st) = (db', st')"
    and tab: "submissions_table db' = submissions_table db @
                [\<lparr>row_submission_id = next_submission_id be, row_night_id = ?n,
                  row_user_id = users_user_id u, row_movie_id = movie_result_id m,
                  row_created_at = now_iso be\<rparr>]"
    and err: "error st' = error st"
    by (elim exE conjE)
  from tab have "owned_in_store ?n (users_user_id u) db'
      = Suc (owned_in_store ?n (users_user_id u) db)"
    by (simp add: owned_in_store_def)
  with run tab err
  show "\<exists>db' st'. handleSubmitMovie be (db, st) = (db', st')
                  \<and> submissions_table db' = submissions_table db @
                       [\<lparr>row_submission_id = next_submission_id be,
                         row_night_id = ?n,
                         row_user_id = users_user_id u,
                         row_movie_id = movie_result_id m,
                         row_created_at = now_iso be\<rparr>]
                  \<and> owned_in_store ?n (users_user_id u) db'
                      = Suc (owned_in_store ?n (users_user_id u) db)
                  \<and> error st' = error st"
    by blast
qed

text \<open>With two submissions of user 3 loaded, a third is refused; with one, a second is
  inserted.\<close>

definition example_row :: "int \<Rightarrow> submissions_row" where
  "example_row i =
     \<lparr>row_submission_id = i, row_night_id = 1, row_user_id = 3, row_movie_id = 11,
      row_created_at = ''''\<rparr>"

theorem submit_movie_quota_witness:
  "handleSubmitMovie example_backend
      (example_database\<lparr>submissions_table := [example_row 1, example_row 2]\<rparr>,
       example_state [(candidate 1 [])\<lparr>user_id := 3\<rparr>, (candidate 2 [])\<lparr>user_id := 3\<rparr>])
     = (example_database\<lparr>submissions_table := [example_row 1, example_row 2]\<rparr>,
        (example_state [(candidate 1 [])\<lparr>user_id := 3\<rparr>, (candidate 2 [])\<lparr>user_id := 3\<rparr>])
          \<lparr>error := Some quota_message\<rparr>)
   \<and> submissions_table
        (fst (handleSubmitMovie example_backend
               (example_database\<lparr>submissions_table := [example_row 1]\<rparr>,
                example_state [(candidate 1 [])\<lparr>user_id := 3\<rparr>])))
     = [example_row 1,
        \<lparr>row_submission_id = 9, row_night_id = 1, row_user_id = 3, row_movie_id = 603,
         row_created_at = ''2023-01-18T00:00:00.001Z''\<rparr>]"
proof -
  let ?two = "example_state [(candidate 1 [])\<lparr>user_id := 3\<rparr>, (candidate 2 [])\<lparr>user_id := 3\<rparr>]"
  let ?one = "example_state [(candidate 1 [])\<lparr>user_id := 3\<rparr>]"
  let ?db2 = "example_database\<lparr>submissions_table := [example_row 1, example_row 2]\<rparr>"
  let ?db1 = "example_database\<lparr>submissions_table := [example_row 1]\<rparr>"
  let ?n = "getCurrentMovieNight (now_ms example_backend)"
  have n: "?n = 1" by (simp add: getCurrentMovieNight_def example_backend_def)
  have u2: "currentUser ?two = Some example_user" and m2: "selectedMovie ?two = Some example_movie"
    and u1: "currentUser ?one = Some example_user" and m1: "selectedMovie ?one = Some example_movie"
    by (simp_all add: example_state_def)
  have q: "MAX_SUBMISSIONS
      \<le> length (filter (\<lambda>s. user_id s = users_user_id example_user) (submissions ?two))"
    by (simp add: example_state_def example_user_def candidate_def MAX_SUBMISSIONS_def)
  have b: "length (filter (\<lambda>s. user_id s = users_user_id example_user) (submissions ?one))
        < MAX_SUBMISSIONS
      \<and> select_night_error example_backend = None \<and> insert_night_error example_backend = None
      \<and> insert_submission_error example_backend = None"
    by (simp add: example_state_def example_user_def candidate_def MAX_SUBMISSIONS_def
        example_backend_def)
  from submit_movie_quota [OF u2 m2, of example_backend ?db2] q
  have 1: "handleSubmitMovie example_backend (?db2, ?two)
      = (?db2, ?two\<lparr>error := Some quota_message\<rparr>)"
    by blast
  from submit_movie_quota [OF u1 m1, of example_backend ?db1] b
  obtain db' st' where "handleSubmitMovie example_backend (?db1, ?one) = (db', st')"
    "submissions_table db' = submissions_table ?db1 @
       [\<lparr>row_submission_id = next_submission_id example_backend,
         row_night_id = ?n,
         row_user_id = users_user_id example_user,
         row_movie_id = movie_result_id example_movie,
         row_created_at = now_iso example_backend\<rparr>]"
    by blast
  then have 2: "submissions_table (fst (handleSubmitMovie example_backend (?db1, ?one)))
     = [example_row 1,
        \<lparr>row_submission_id = 9, row_night_id = 1, row_user_id = 3, row_movie_id = 603,
         row_created_at = ''2023-01-18T00:00:00.001Z''\<rparr>]"
    unfolding n by (simp add: example_backend_def example_user_def example_movie_def)
  from 1 2 show ?thesis by (rule conjI)
qed

text \<open>
  Claim C8 as stated fails. User 3 owns two submissions of night 1 in the store, but the
  list the application has loaded is empty (not yet fetched, or out of date). The
  handler does not consult the store: it inserts a third row and sets no error, and the
  user then owns three.
\<close>

theorem submit_movie_quota_counterexample:
  "getCurrentMovieNight (now_ms example_backend) = 1
   \<and> owned_in_store 1 3 (example_database\<lparr>submissions_table := [example_row 1, example_row 2]\<rparr>)
       = MAX_SUBMISSIONS
   \<and> submissions_table
        (fst (handleSubmitMovie example_backend
               (example_database\<lparr>submissions_table := [example_row 1, example_row 2]\<rparr>,
                example_state [])))
     = [example_row 1, example_row 2,
        \<lparr>row_submission_id = 9, row_night_id = 1, row_user_id = 3, row_movie_id = 603,
         row_created_at = ''2023-01-18T00:00:00.001Z''\<rparr>]
   \<and> error (snd (handleSubmitMovie example_backend
               (example_database\<lparr>submissions_table := [example_row 1, example_row 2]\<rparr>,
                example_state []))) = None
   \<and> owned_in_store 1 3
        (fst (handleSubmitMovie example_backend
               (example_database\<lparr>submissions_table := [example_row 1, example_row 2]\<rparr>,
                example_state [])))
       = 3"
  by (simp add: handleSubmitMovie_def ensureMovieNightExists_def getCurrentMovieNight_def
      owned_in_store_def MAX_SUBMISSIONS_def example_backend_def example_database_def
      example_state_def example_user_def example_movie_def example_row_def)

subsection \<open>Submitting a ranking\<close>

text \<open>The rows an insert of the materialized ranking adds to the table.\<close>

definition new_votes :: "backend \<Rightarrow> int \<Rightarrow> submission list \<Rightarrow> vote list" where
  "new_votes be uid vs = insert_votes be (votes_payload uid vs) []"

lemma enumerate_map_enumerate:
  "enumerate n (map f (enumerate n xs)) = map (\<lambda>(i, x). (i, f (i, x))) (enumerate n xs)"
  by (induction xs arbitrary: n) simp_all

lemma map_via_fst: "map (\<lambda>x. f (fst x)) ps = map f (map fst ps)"
  by (simp add: comp_def)

lemma map_via_snd: "map (\<lambda>x. f (snd x)) ps = map f (map snd ps)"
  by (simp add: comp_def)

lemma new_votes_eq:
  "new_votes be uid vs =
     map (\<lambda>(i, s). \<lparr>vote_id = next_vote_id be + int i, vote_submission_id = submission_id s,
                     vote_user_id = uid, rank = int i + 1, vote_created_at = now_iso be\<rparr>)
       (enumerate 0 vs)"
  by (simp add: new_votes_def insert_votes_def votes_payload_def enumerate_map_enumerate
      case_prod_beta comp_def)

lemma new_votes_submission_ids:
  "map vote_submission_id (new_votes be uid vs) = map submission_id vs"
proof -
  have "map vote_submission_id (new_votes be uid vs)
      = map (\<lambda>x. submission_id (snd x)) (enumerate 0 vs)"
    by (simp add: new_votes_eq case_prod_beta comp_def)
  also have "\<dots> = map submission_id (map snd (enumerate 0 vs))"
    by (rule map_via_snd)
  finally show ?thesis by simp
qed

lemma new_votes_ranks: "map rank (new_votes be uid vs) = map int [1..<Suc (length vs)]"
proof -
  have "map rank (new_votes be uid vs) = map (\<lambda>x. int (fst x) + 1) (enumerate 0 vs)"
    by (simp add: new_votes_eq case_prod_beta comp_def)
  also have "\<dots> = map (\<lambda>i. int i + 1) (map fst (enumerate 0 vs))"
    by (rule map_via_fst)
  also have "\<dots> = map (\<lambda>i. int (Suc i)) [0..<length vs]"
    by (simp add: add.commute)
  also have "\<dots> = map int (map Suc [0..<length vs])"
    by (simp add: comp_def)
  also have "\<dots> = map int [1..<Suc (length vs)]"
    by (simp only: map_Suc_upt One_nat_def)
  finally show ?thesis .
qed

lemma new_votes_users:
  "map vote_user_id (new_votes be uid vs) = replicate (length vs) uid"
proof -
  have "map vote_user_id (new_votes be uid vs) = map (\<lambda>_. uid) (enumerate 0 vs)"
    by (simp add: new_votes_eq case_prod_beta comp_def)
  then show ?thesis by (simp add: map_replicate_const)
qed

lemma new_votes_user: "v \<in> set (new_votes be uid vs) \<Longrightarrow> vote_user_id v = uid"
proof -
  assume "v \<in> set (new_votes be uid vs)"
  then have "vote_user_id v \<in> set (map vote_user_id (new_votes be uid vs))" by simp
  then show ?thesis unfolding new_votes_users by simp
qed

lemma new_votes_listed:
  "v \<in> set (new_votes be uid vs) \<Longrightarrow> vote_submission_id v \<in> set (map submission_id vs)"
  using new_votes_submission_ids [of be uid vs] by (metis image_eqI list.set_map)

text \<open>The ids of the submissions of a night, in the store.\<close>

definition night_candidates :: "int \<Rightarrow> database \<Rightarrow> int set" where
  "night_candidates nightId db =
     set (map row_submission_id (filter (\<lambda>r. row_night_id r = nightId) (submissions_table db)))"

text \<open>
  Claim C7, amended. The handler replaces the user's votes for the submissions of the
  working list \<open>userVotes\<close>, not for every submission of the night. For a logged-in user
  and a working list of \<open>k\<close> submissions, when the store answers both requests without
  error, it deletes every vote of this user for a listed submission and appends one new
  vote per listed submission, in list order, each of this user and with rank
  position + 1: the new ranks are 1, 2, ..., \<open>k\<close>. After the call the user's votes for
  the listed submissions are exactly the new ones, and every other vote, also a vote of
  this user for a submission that is not listed, is as before.
\<close>

theorem submit_votes_replaces_ballots:
  assumes u: "currentUser st = Some u"
      and de: "delete_votes_error be = None"
      and ie: "insert_votes_error be = None"
  shows "\<exists>new.
      handleSubmitVotes be (db, st) =
        (db\<lparr>votes_table :=
             filter (\<lambda>v. \<not> (vote_user_id v = users_user_id u \<and>
                            vote_submission_id v \<in> set (map submission_id (userVotes st))))
               (votes_table db) @ new\<rparr>, st)
    \<and> map vote_submission_id new = map submission_id (userVotes st)
    \<and> map rank new = map int [1..<Suc (length (userVotes st))]
    \<and> map vote_user_id new = replicate (length (userVotes st)) (users_user_id u)
    \<and> filter (\<lambda>v. vote_user_id v = users_user_id u \<and>
                   vote_submission_id v \<in> set (map submission_id (userVotes st)))
         (votes_table (fst (handleSubmitVotes be (db, st)))) = new
    \<and> filter (\<lambda>v. \<not> (vote_user_id v = users_user_id u \<and>
                       vote_submission_id v \<in> set (map submission_id (userVotes st))))
         (votes_table (fst (handleSubmitVotes be (db, st))))
       = filter (\<lambda>v. \<not> (vote_user_id v = users_user_id u \<and>
                         vote_submission_id v \<in> set (map submission_id (userVotes st))))
           (votes_table db)"
proof -
  let ?mine = "\<lambda>v. vote_user_id v = users_user_id u \<and>
                   vote_submission_id v \<in> set (map submission_id (userVotes st))"
  let ?new = "new_votes be (users_user_id u) (userVotes st)"
  have run: "handleSubmitVotes be (db, st) =
      (db\<lparr>votes_table := filter (\<lambda>v. \<not> ?mine v) (votes_table db) @ ?new\<rparr>, st)"
    using u de ie by (simp add: handleSubmitVotes_def new_votes_def insert_votes_def)
  have mine: "\<forall>v \<in> set ?new. ?mine v"
    using new_votes_user new_votes_listed by blast
  then have keep: "filter ?mine ?new = ?new" by (simp add: filter_id_conv)
  then have flt: "filter ?mine (votes_table (fst (handleSubmitVotes be (db, st)))) = ?new"
    unfolding run by simp
  from mine have "filter (\<lambda>v. \<not> ?mine v) ?new = []" by (simp add: filter_empty_conv)
  then have rest: "filter (\<lambda>v. \<not> ?mine v) (votes_table (fst (handleSubmitVotes be (db, st))))
      = filter (\<lambda>v. \<not> ?mine v) (votes_table db)"
    unfolding run by simp
  have usr: "map vote_user_id ?new = replicate (length (userVotes st)) (users_user_id u)"
    by (rule new_votes_users)
  show ?thesis
    by (intro exI [of _ ?new] conjI run new_votes_submission_ids new_votes_ranks usr flt rest)
qed

text \<open>User 3 re-ranks submissions 7 and 5: the old vote for submission 5 goes, user 4's
  vote stays, and the new votes carry ranks 1 and 2.\<close>

theorem submit_votes_replaces_ballots_witness:
  "map rank
     (filter (\<lambda>v. vote_user_id v = users_user_id example_user \<and>
                  vote_submission_id v \<in> set (map submission_id
                    (userVotes (example_state
                      [candidate 7 [], candidate 5 [ballot 1 5 3 1, ballot 2 5 4 1]]))))
        (votes_table (fst (handleSubmitVotes example_backend
           (example_database,
            example_state [candidate 7 [], candidate 5 [ballot 1 5 3 1, ballot 2 5 4 1]])))))
     = [1, 2]
   \<and> votes_table (fst (handleSubmitVotes example_backend
        (example_database,
         example_state [candidate 7 [], candidate 5 [ballot 1 5 3 1, ballot 2 5 4 1]])))
     = [ballot 2 5 4 1,
        \<lparr>vote_id = 40, vote_submission_id = 7, vote_user_id = 3, rank = 1,
         vote_created_at = ''2023-01-18T00:00:00.001Z''\<rparr>,
        \<lparr>vote_id = 41, vote_submission_id = 5, vote_user_id = 3, rank = 2,
         vote_created_at = ''2023-01-18T00:00:00.001Z''\<rparr>]"
proof -
  let ?st = "example_state [candidate 7 [], candidate 5 [ballot 1 5 3 1, ballot 2 5 4 1]]"
  let ?votes = "votes_table (fst (handleSubmitVotes example_backend (example_database, ?st)))"
  have u: "currentUser ?st = Some example_user" by (simp add: example_state_def)
  have de: "delete_votes_error example_backend = None"
    and ie: "insert_votes_error example_backend = None"
    by (simp_all add: example_backend_def)
  from submit_votes_replaces_ballots [OF u de ie, of example_database]
  obtain new where ranks: "map rank new = map int [1..<Suc (length (userVotes ?st))]"
    and mine: "filter (\<lambda>v. vote_user_id v = users_user_id example_user \<and>
                  vote_submission_id v \<in> set (map submission_id (userVotes ?st))) ?votes = new"
    by (elim exE conjE)
  have "map int [1..<Suc (length (userVotes ?st))] = [1, 2]"
    by (simp add: example_state_def upt_rec)
  with ranks mine
  have 1: "map rank (filter (\<lambda>v. vote_user_id v = users_user_id example_user \<and>
                  vote_submission_id v \<in> set (map submission_id (userVotes ?st))) ?votes) = [1, 2]"
    by simp
  have 2: "?votes = [ballot 2 5 4 1,
        \<lparr>vote_id = 40, vote_submission_id = 7, vote_user_id = 3, rank = 1,
         vote_created_at = ''2023-01-18T00:00:00.001Z''\<rparr>,
        \<lparr>vote_id = 41, vote_submission_id = 5, vote_user_id = 3, rank = 2,
         vote_created_at = ''2023-01-18T00:00:00.001Z''\<rparr>]"
    by (simp add: handleSubmitVotes_def example_state_def example_backend_def example_database_def
        example_user_def candidate_def ballot_def insert_votes_def votes_payload_def)
  from 1 2 show ?thesis by (rule conjI)
qed

text \<open>
  Claim C7 as stated fails. Night 1 holds submissions 9, 7 and 5; user 3 has a vote of
  rank 1 for submission 9; the working list is 5, 7. The handler deletes only votes for
  5 and 7, so afterwards the user's votes for the submissions of the night are the old
  vote for 9 and the two new ones: not the new set alone, and with ranks 1, 1, 2.
\<close>

theorem submit_votes_night_counterexample:
  "night_candidates 1
     (example_database\<lparr>submissions_table := [example_row 9, example_row 7, example_row 5],
                       votes_table := [ballot 1 9 3 1]\<rparr>) = {9, 7, 5}
   \<and> filter (\<lambda>v. vote_user_id v = 3 \<and> vote_submission_id v \<in> {9, 7, 5})
        (votes_table (fst (handleSubmitVotes example_backend
          (example_database\<lparr>submissions_table := [example_row 9, example_row 7, example_row 5],
                            votes_table := [ballot 1 9 3 1]\<rparr>,
           example_state [candidate 5 [], candidate 7 []]))))
     = [ballot 1 9 3 1,
        \<lparr>vote_id = 40, vote_submission_id = 5, vote_user_id = 3, rank = 1,
         vote_created_at = ''2023-01-18T00:00:00.001Z''\<rparr>,
        \<lparr>vote_id = 41, vote_submission_id = 7, vote_user_id = 3, rank = 2,
         vote_created_at = ''2023-01-18T00:00:00.001Z''\<rparr>]
   \<and> map rank
        (filter (\<lambda>v. vote_user_id v = 3 \<and> vote_submission_id v \<in> {9, 7, 5})
          (votes_table (fst (handleSubmitVotes example_backend
            (example_database\<lparr>submissions_table := [example_row 9, example_row 7, example_row 5],
                              votes_table := [ballot 1 9 3 1]\<rparr>,
             example_state [candidate 5 [], candidate 7 []])))))
     = [1, 1, 2]"
  by (simp add: handleSubmitVotes_def night_candidates_def example_state_def example_backend_def
      example_database_def example_user_def example_row_def candidate_def ballot_def
      insert_votes_def votes_payload_def)

end
